theory Spec2Isabelle
  imports Complex_Main "HOL-Library.Multiset"
begin

section \<open>JavaScript numbers\<close>

text \<open>
  The enrichment engine (\<^verbatim>\<open>src/services/enrichment.ts\<close>) computes with the
  TypeScript type \<^verbatim>\<open>number\<close>. A \<^verbatim>\<open>number\<close> is modelled as an exact real
  extended by the three special values the code produces or tests for:
  \<^verbatim>\<open>Infinity\<close>, \<^verbatim>\<open>-Infinity\<close> and \<^verbatim>\<open>NaN\<close>. The arithmetic follows
  IEEE 754 on the special values; on finite values it is exact, so rounding,
  overflow of finite results and the sign of zero are outside the model.
  Quantities that the code only ever uses as counts or array indices
  (contingency cells, ranks, loop counters) are integers.
\<close>

datatype number = NaN | NegInf | Fin real | PosInf

fun js_neg :: "number \<Rightarrow> number" where
  "js_neg NaN = NaN"
| "js_neg NegInf = PosInf"
| "js_neg (Fin x) = Fin (- x)"
| "js_neg PosInf = NegInf"

fun js_add :: "number \<Rightarrow> number \<Rightarrow> number" where
  "js_add (Fin x) (Fin y) = Fin (x + y)"
| "js_add NaN _ = NaN"
| "js_add _ NaN = NaN"
| "js_add PosInf NegInf = NaN"
| "js_add NegInf PosInf = NaN"
| "js_add PosInf _ = PosInf"
| "js_add _ PosInf = PosInf"
| "js_add NegInf _ = NegInf"
| "js_add _ NegInf = NegInf"

definition js_sub :: "number \<Rightarrow> number \<Rightarrow> number" where
  "js_sub x y = js_add x (js_neg y)"

fun js_mul :: "number \<Rightarrow> number \<Rightarrow> number" where
  "js_mul (Fin x) (Fin y) = Fin (x * y)"
| "js_mul NaN _ = NaN"
| "js_mul _ NaN = NaN"
| "js_mul (Fin x) PosInf = (if x = 0 then NaN else if 0 < x then PosInf else NegInf)"
| "js_mul (Fin x) NegInf = (if x = 0 then NaN else if 0 < x then NegInf else PosInf)"
| "js_mul PosInf (Fin y) = (if y = 0 then NaN else if 0 < y then PosInf else NegInf)"
| "js_mul NegInf (Fin y) = (if y = 0 then NaN else if 0 < y then NegInf else PosInf)"
| "js_mul PosInf PosInf = PosInf"
| "js_mul PosInf NegInf = NegInf"
| "js_mul NegInf PosInf = NegInf"
| "js_mul NegInf NegInf = PosInf"

fun js_div :: "number \<Rightarrow> number \<Rightarrow> number" where
  "js_div (Fin x) (Fin y) =
     (if y \<noteq> 0 then Fin (x / y)
      else if x = 0 then NaN else if 0 < x then PosInf else NegInf)"
| "js_div NaN _ = NaN"
| "js_div _ NaN = NaN"
| "js_div (Fin x) PosInf = Fin 0"
| "js_div (Fin x) NegInf = Fin 0"
| "js_div PosInf (Fin y) = (if 0 \<le> y then PosInf else NegInf)"
| "js_div NegInf (Fin y) = (if 0 \<le> y then NegInf else PosInf)"
| "js_div PosInf PosInf = NaN"
| "js_div PosInf NegInf = NaN"
| "js_div NegInf PosInf = NaN"
| "js_div NegInf NegInf = NaN"

text \<open>\<^verbatim>\<open>Math.exp\<close>, \<^verbatim>\<open>Math.log\<close> and the two-argument \<^verbatim>\<open>Math.min\<close>.\<close>

fun js_exp :: "number \<Rightarrow> number" where
  "js_exp NaN = NaN"
| "js_exp NegInf = Fin 0"
| "js_exp (Fin x) = Fin (exp x)"
| "js_exp PosInf = PosInf"

fun js_log :: "number \<Rightarrow> number" where
  "js_log NaN = NaN"
| "js_log NegInf = NaN"
| "js_log (Fin x) = (if 0 < x then Fin (ln x) else if x = 0 then NegInf else NaN)"
| "js_log PosInf = PosInf"

fun js_min :: "number \<Rightarrow> number \<Rightarrow> number" where
  "js_min (Fin x) (Fin y) = Fin (min x y)"
| "js_min NaN _ = NaN"
| "js_min _ NaN = NaN"
| "js_min NegInf _ = NegInf"
| "js_min _ NegInf = NegInf"
| "js_min PosInf y = y"
| "js_min x PosInf = x"

text \<open>The comparison \<^verbatim>\<open>x <= y\<close>: false as soon as one side is \<^verbatim>\<open>NaN\<close>.\<close>

fun js_le :: "number \<Rightarrow> number \<Rightarrow> bool" where
  "js_le (Fin x) (Fin y) = (x \<le> y)"
| "js_le NaN _ = False"
| "js_le _ NaN = False"
| "js_le NegInf _ = True"
| "js_le _ PosInf = True"
| "js_le (Fin x) NegInf = False"
| "js_le PosInf (Fin y) = False"
| "js_le PosInf NegInf = False"

text \<open>The comparison \<^verbatim>\<open>x < y\<close>.\<close>

fun js_lt :: "number \<Rightarrow> number \<Rightarrow> bool" where
  "js_lt (Fin x) (Fin y) = (x < y)"
| "js_lt NaN _ = False"
| "js_lt _ NaN = False"
| "js_lt NegInf NegInf = False"
| "js_lt NegInf _ = True"
| "js_lt PosInf _ = False"
| "js_lt (Fin x) PosInf = True"
| "js_lt (Fin x) NegInf = False"

text \<open>
  A number in a boolean position (the left operand of \<^verbatim>\<open>||\<close>) is falsy when
  it is zero or \<^verbatim>\<open>NaN\<close>. A comparator result asks for a swap when it is
  positive; \<^verbatim>\<open>Array.prototype.sort\<close> reads a \<^verbatim>\<open>NaN\<close> result as zero.
\<close>

fun js_truthy :: "number \<Rightarrow> bool" where
  "js_truthy NaN = False"
| "js_truthy (Fin x) = (x \<noteq> 0)"
| "js_truthy _ = True"

definition js_or :: "number \<Rightarrow> number \<Rightarrow> number" where
  "js_or x y = (if js_truthy x then x else y)"

fun js_positive :: "number \<Rightarrow> bool" where
  "js_positive PosInf = True"
| "js_positive (Fin x) = (0 < x)"
| "js_positive _ = False"

definition num :: "int \<Rightarrow> number" where
  "num i = Fin (real_of_int i)"

fun is_finite :: "number \<Rightarrow> bool" where
  "is_finite (Fin x) = True"
| "is_finite _ = False"

section \<open>Arrays\<close>

text \<open>
  An array of numbers is a list. Reading outside the array yields
  \<^verbatim>\<open>undefined\<close>, which every arithmetic operation turns into \<^verbatim>\<open>NaN\<close>; so
  does reading a hole. Writing at the length appends, writing beyond it leaves
  holes, and writing at a negative index does not touch the elements.
\<close>

definition array_get :: "number list \<Rightarrow> int \<Rightarrow> number" where
  "array_get arr i = (if 0 \<le> i \<and> i < int (length arr) then arr ! nat i else NaN)"

definition array_set :: "number list \<Rightarrow> int \<Rightarrow> number \<Rightarrow> number list" where
  "array_set arr i v =
     (if i < 0 then arr
      else if i < int (length arr) then arr[nat i := v]
      else arr @ replicate (nat i - length arr) NaN @ [v])"

text \<open>
  \<^verbatim>\<open>Array.prototype.sort(cmp)\<close> is stable. For a comparator that is a
  consistent ordering the result is therefore determined: it is the one that
  insertion from the right computes, where an element moves past its right
  neighbours as long as the comparator is positive.
\<close>

fun array_insort :: "('a \<Rightarrow> 'a \<Rightarrow> number) \<Rightarrow> 'a \<Rightarrow> 'a list \<Rightarrow> 'a list" where
  "array_insort cmp x [] = [x]"
| "array_insort cmp x (y # ys) =
     (if js_positive (cmp x y) then y # array_insort cmp x ys else x # y # ys)"

definition array_sort :: "('a \<Rightarrow> 'a \<Rightarrow> number) \<Rightarrow> 'a list \<Rightarrow> 'a list" where
  "array_sort cmp xs = foldr (array_insort cmp) xs []"

section \<open>Log-factorial cache, binomial coefficient, hypergeometric PMF\<close>

text \<open>
  \<^verbatim>\<open>logFactorialCache\<close> is a module-level array, initially \<^verbatim>\<open>[0]\<close>, that
  \<^verbatim>\<open>logFactorial\<close> extends. Every function that reaches it takes the cache
  and returns it with its value.
\<close>

definition logFactorialCache_init :: "number list" where
  "logFactorialCache_init = [Fin 0]"

function logFactorial_fill :: "number list \<Rightarrow> int \<Rightarrow> int \<Rightarrow> number list" where
  "logFactorial_fill cache i n =
     (if i \<le> n
      then logFactorial_fill
             (array_set cache i (js_add (array_get cache (i - 1)) (js_log (num i))))
             (i + 1) n
      else cache)"
  by pat_completeness auto
termination
  by (relation "measure (\<lambda>(cache, i, n). nat (n + 1 - i))") auto

declare logFactorial_fill.simps [simp del]

definition logFactorial :: "number list \<Rightarrow> int \<Rightarrow> number \<times> number list" where
  "logFactorial cache n =
     (if n < 0 then (Fin 0, cache)
      else let cache' = logFactorial_fill cache (int (length cache)) n
           in (array_get cache' n, cache'))"

definition logChoose :: "number list \<Rightarrow> int \<Rightarrow> int \<Rightarrow> number \<times> number list" where
  "logChoose cache n k =
     (if k < 0 \<or> k > n then (NegInf, cache)
      else case logFactorial cache n of (fn, c1) \<Rightarrow>
           case logFactorial c1 k of (fk, c2) \<Rightarrow>
           case logFactorial c2 (n - k) of (fnk, c3) \<Rightarrow>
             (js_sub (js_sub fn fk) fnk, c3))"

definition hypergeomPmf ::
  "number list \<Rightarrow> int \<Rightarrow> int \<Rightarrow> int \<Rightarrow> int \<Rightarrow> number \<times> number list" where
  "hypergeomPmf cache k N K n =
     (case logChoose cache K k of (x, c1) \<Rightarrow>
      case logChoose c1 (N - K) (n - k) of (y, c2) \<Rightarrow>
      case logChoose c2 N n of (z, c3) \<Rightarrow>
        (js_exp (js_sub (js_add x y) z), c3))"

section \<open>Fisher exact test (right tail) and odds ratio\<close>

record FisherResult =
  pValue :: number
  oddsRatio :: number

text \<open>The loop \<^verbatim>\<open>for (let k = a; k <= maxK; k += 1) p += hypergeomPmf(k, N, K, n)\<close>.\<close>

function fisher_sum ::
  "number list \<Rightarrow> int \<Rightarrow> int \<Rightarrow> int \<Rightarrow> int \<Rightarrow> int \<Rightarrow> number \<Rightarrow> number \<times> number list" where
  "fisher_sum cache k maxK N K n p =
     (if k \<le> maxK
      then case hypergeomPmf cache k N K n of (pmf, c1) \<Rightarrow>
             fisher_sum c1 (k + 1) maxK N K n (js_add p pmf)
      else (p, cache))"
  by pat_completeness auto
termination
  by (relation "measure (\<lambda>(cache, k, maxK, N, K, n, p). nat (maxK + 1 - k))") auto

declare fisher_sum.simps [simp del]

definition fisherRightTail ::
  "number list \<Rightarrow> int \<Rightarrow> int \<Rightarrow> int \<Rightarrow> int \<Rightarrow> FisherResult \<times> number list" where
  "fisherRightTail cache a b c d =
     (let N = a + b + c + d;
          K = a + c;
          n = a + b;
          maxK = min K n
      in case fisher_sum cache a maxK N K n (Fin 0) of (p, cache') \<Rightarrow>
         let denom = b * c;
             oddsRatio = (if denom = 0 then (if a > 0 then PosInf else Fin 0)
                          else js_div (num (a * d)) (num denom))
         in (\<lparr>pValue = js_min (Fin 1) p, oddsRatio = oddsRatio\<rparr>, cache'))"

section \<open>The capacity of the cache array\<close>










section \<open>Benjamini-Hochberg correction\<close>

text \<open>
  \<^verbatim>\<open>indexed\<close>: each p-value paired with its position (the object
  \<^verbatim>\<open>{ p, idx }\<close> is the pair \<open>(p, idx)\<close>), sorted with the comparator
  \<^verbatim>\<open>(a, b) => a.p - b.p\<close>.
\<close>

definition bhFdr_indexed :: "number list \<Rightarrow> (number \<times> nat) list" where
  "bhFdr_indexed pValues =
     array_sort (\<lambda>a b. js_sub (fst a) (fst b)) (zip pValues [0..<length pValues])"

text \<open>
  The loop \<^verbatim>\<open>for (let i = m - 1; i >= 0; i -= 1)\<close>. It reads
  \<^verbatim>\<open>indexed[i]\<close> only for \<open>0 \<le> i < m\<close>, and \<open>m\<close> is the length of
  \<^verbatim>\<open>indexed\<close>.
\<close>

function bhFdr_loop ::
  "(number \<times> nat) list \<Rightarrow> nat \<Rightarrow> int \<Rightarrow> number \<Rightarrow> number list \<Rightarrow> number list" where
  "bhFdr_loop indexed m i prev qValues =
     (if i \<ge> 0
      then let rank = i + 1;
               q = js_min prev (js_div (js_mul (fst (indexed ! nat i)) (num (int m))) (num rank))
           in bhFdr_loop indexed m (i - 1) q (array_set qValues (int (snd (indexed ! nat i))) q)
      else qValues)"
  by pat_completeness auto
termination
  by (relation "measure (\<lambda>(indexed, m, i, prev, qValues). nat (i + 1))") auto

declare bhFdr_loop.simps [simp del]

definition bhFdr :: "number list \<Rightarrow> number list" where
  "bhFdr pValues =
     (let indexed = bhFdr_indexed pValues;
          m = length pValues;
          qValues = replicate m (Fin 1)
      in bhFdr_loop indexed m (int m - 1) (Fin 1) qValues)"

section \<open>Per-term, per-TF enrichment\<close>

text \<open>
  A \<^verbatim>\<open>Set<string>\<close> is the list of its elements in insertion order, without
  repetition; a \<^verbatim>\<open>Map<string, Set<string>>\<close> is the list of its entries in
  insertion order. \<^verbatim>\<open>forEach\<close> visits them in that order.
\<close>

definition set_has :: "'a list \<Rightarrow> 'a \<Rightarrow> bool" where
  "set_has s x = (x \<in> set s)"

definition set_add :: "'a list \<Rightarrow> 'a \<Rightarrow> 'a list" where
  "set_add s x = (if set_has s x then s else s @ [x])"

definition set_size :: "'a list \<Rightarrow> nat" where
  "set_size s = length s"

text \<open>\<^verbatim>\<open>String.prototype.toUpperCase\<close> on ASCII letters (gene identifiers are ASCII).\<close>

definition upper_char :: "char \<Rightarrow> char" where
  "upper_char ch =
     (let n = (of_char ch :: nat) in if 97 \<le> n \<and> n \<le> 122 then char_of (n - 32) else ch)"

definition toUpperCase :: "string \<Rightarrow> string" where
  "toUpperCase g = map upper_char g"

text \<open>
  The two loops that build \<^verbatim>\<open>pathway\<close> and \<^verbatim>\<open>targetGenes\<close> have the same
  body: uppercase the gene and add it when the universe has it.
\<close>

definition restrict_to_universe :: "string list \<Rightarrow> string list \<Rightarrow> string list" where
  "restrict_to_universe universe genes =
     foldl (\<lambda>acc g. let gene = toUpperCase g
                     in if set_has universe gene then set_add acc gene else acc) [] genes"

text \<open>The four cells \<^verbatim>\<open>a\<close>, \<^verbatim>\<open>b\<close>, \<^verbatim>\<open>c\<close>, \<^verbatim>\<open>d\<close> of one TF.\<close>

definition contingency :: "string list \<Rightarrow> string list \<Rightarrow> int \<Rightarrow> int \<times> int \<times> int \<times> int" where
  "contingency targetGenes pathway universeSize =
     (let a = int (length (filter (\<lambda>g. set_has pathway g) targetGenes));
          b = int (set_size targetGenes) - a;
          c = int (set_size pathway) - a;
          d = universeSize - a - b - c
      in (a, b, c, d))"

text \<open>
  \<^verbatim>\<open>EnrichmentResult\<close> has the two fields of the record \<^verbatim>\<open>fisherRightTail\<close>
  returns and five more.
\<close>

record EnrichmentResult = FisherResult +
  tf :: string
  overlap :: int
  tfTargets :: int
  pathwayGenes :: int
  fdr :: number

text \<open>The callback of \<^verbatim>\<open>tfTargets.forEach\<close>, on the results so far and the cache.\<close>

definition enrich_tf ::
  "string list \<Rightarrow> int \<Rightarrow> string list \<Rightarrow> EnrichmentResult list \<times> number list \<Rightarrow>
   string \<times> string list \<Rightarrow> EnrichmentResult list \<times> number list" where
  "enrich_tf universe universeSize pathway st entry =
     (case st of (results, cache) \<Rightarrow>
      case entry of (name, targets) \<Rightarrow>
        let targetGenes = restrict_to_universe universe targets
        in case contingency targetGenes pathway universeSize of (a, b, c, d) \<Rightarrow>
           if set_size targetGenes = 0 \<or> set_size pathway = 0 then (results, cache)
           else case fisherRightTail cache a b c d of (fr, cache') \<Rightarrow>
             (results @
                [\<lparr>pValue = pValue fr, oddsRatio = oddsRatio fr, tf = name, overlap = a,
                  tfTargets = int (set_size targetGenes),
                  pathwayGenes = int (set_size pathway), fdr = Fin 1\<rparr>],
              cache'))"

text \<open>The comparator \<^verbatim>\<open>(a, b) => a.pValue - b.pValue || b.overlap - a.overlap\<close>.\<close>

definition compare_results :: "EnrichmentResult \<Rightarrow> EnrichmentResult \<Rightarrow> number" where
  "compare_results x y =
     js_or (js_sub (pValue x) (pValue y)) (num (overlap y - overlap x))"

definition computeEnrichment ::
  "number list \<Rightarrow> (string \<times> string list) list \<Rightarrow> string list \<Rightarrow> string list \<Rightarrow>
   EnrichmentResult list \<times> number list" where
  "computeEnrichment cache tfTargetMap pathwayGeneSet universe =
     (let universeSize = int (set_size universe);
          pathway = restrict_to_universe universe pathwayGeneSet
      in case foldl (enrich_tf universe universeSize pathway) ([], cache) tfTargetMap of
           (results, cache') \<Rightarrow>
             let qs = bhFdr (map pValue results);
                 results' = map (\<lambda>(r, idx). r\<lparr>fdr := array_get qs (int idx)\<rparr>)
                                (zip results [0..<length results])
             in (array_sort compare_results results', cache'))"

section \<open>Invariant of the log-factorial cache\<close>

text \<open>
  The cache is never empty and holds finite numbers only. It is so initially
  and every function keeps it so.
\<close>

definition cache_ok :: "number list \<Rightarrow> bool" where
  "cache_ok cache = (cache \<noteq> [] \<and> list_all is_finite cache)"

definition nonneg_finite :: "number \<Rightarrow> bool" where
  "nonneg_finite x = (case x of Fin r \<Rightarrow> 0 \<le> r | _ \<Rightarrow> False)"

text \<open>
  More precisely, entry \<open>i\<close> of the cache is the logarithm of \<open>i!\<close>. Then the
  PMF has the value \<open>C(K, k) * C(N - K, n - k) / C(N, n)\<close>.
\<close>

definition cache_exact :: "number list \<Rightarrow> bool" where
  "cache_exact cache = (cache \<noteq> [] \<and> (\<forall>i<length cache. cache ! i = Fin (ln (fact i))))"

definition hypergeom :: "int \<Rightarrow> int \<Rightarrow> int \<Rightarrow> int \<Rightarrow> real" where
  "hypergeom N K n k =
     real (nat K choose nat k) * real (nat (N - K) choose nat (n - k)) / real (nat N choose nat n)"

section \<open>Auxiliary notions for the Benjamini-Hochberg loop\<close>

text \<open>
  Used to state what the loop of \<^verbatim>\<open>bhFdr\<close> computes. \<open>real_of\<close> reads the
  value of a finite number. For the ascending list \<open>s\<close> of the p-values,
  \<open>bh_raw s j\<close> is the raw q-value \<open>p * m / rank\<close> at position \<open>j\<close> (rank
  \<open>j + 1\<close>), and \<open>bh_min s k\<close> is the minimum of \<open>1\<close> and the raw q-values at
  the positions from \<open>k\<close> upwards.
\<close>

fun real_of :: "number \<Rightarrow> real" where
  "real_of (Fin x) = x"
| "real_of _ = 0"

definition bh_raw :: "real list \<Rightarrow> nat \<Rightarrow> real" where
  "bh_raw s j = s ! j * real (length s) / real (j + 1)"

definition bh_min :: "real list \<Rightarrow> nat \<Rightarrow> real" where
  "bh_min s k = Min (insert 1 (bh_raw s ` {k..<length s}))"

text \<open>
  \<open>bh_val s v\<close> is the minimum of \<open>1\<close> and the raw q-values at the positions
  whose p-value is at least \<open>v\<close>.
\<close>

definition bh_val :: "real list \<Rightarrow> real \<Rightarrow> real" where
  "bh_val s v = Min (insert 1 (bh_raw s ` {j. j < length s \<and> v \<le> s ! j}))"

section \<open>Facts about the Fisher test\<close>

lemma is_finite_iff: "is_finite x \<longleftrightarrow> (\<exists>r. x = Fin r)"
  by (cases x) auto

lemma nonneg_finite_iff: "nonneg_finite x \<longleftrightarrow> (\<exists>r. x = Fin r \<and> 0 \<le> r)"
  by (cases x) (auto simp: nonneg_finite_def)

lemma cache_ok_init: "cache_ok logFactorialCache_init"
  by (simp add: cache_ok_def logFactorialCache_init_def)

lemma logFactorial_fill_ok:
  "cache_ok cache \<Longrightarrow> i = int (length cache) \<Longrightarrow>
   cache_ok (logFactorial_fill cache i n) \<and>
   length (logFactorial_fill cache i n) = max (length cache) (nat (n + 1))"
proof (induction cache i n rule: logFactorial_fill.induct)
  case (1 cache i n)
  show ?case
  proof (cases "i \<le> n")
    case False
    then have "logFactorial_fill cache i n = cache"
      by (subst logFactorial_fill.simps) simp
    with False "1.prems" show ?thesis by (auto simp: max_def)
  next
    case True
    let ?v = "js_add (array_get cache (i - 1)) (js_log (num i))"
    from "1.prems" have pos: "0 < i" by (cases cache) (auto simp: cache_ok_def)
    from "1.prems" pos have "nat (i - 1) < length cache" by (cases cache) auto
    with "1.prems" pos have "is_finite (array_get cache (i - 1))"
      by (simp add: array_get_def cache_ok_def list_all_length)
    with pos have fin: "is_finite ?v"
      by (auto simp: is_finite_iff num_def)
    from "1.prems" have app: "array_set cache i ?v = cache @ [?v]"
      by (simp add: array_set_def)
    have ok': "cache_ok (array_set cache i ?v)"
      unfolding app using "1.prems"(1) fin by (simp add: cache_ok_def)
    have len': "i + 1 = int (length (array_set cache i ?v))"
      unfolding app using "1.prems"(2) by simp
    have unf: "logFactorial_fill cache i n = logFactorial_fill (array_set cache i ?v) (i + 1) n"
      using True by (subst logFactorial_fill.simps) simp
    have "length (array_set cache i ?v) = Suc (length cache)"
      unfolding app by simp
    with "1.IH"[OF True ok' len'] True "1.prems"(2) show ?thesis
      unfolding unf by (auto simp: max_def)
  qed
qed

lemma logFactorial_ok:
  assumes "cache_ok cache"
  shows "cache_ok (snd (logFactorial cache n))" and "is_finite (fst (logFactorial cache n))"
proof -
  show "cache_ok (snd (logFactorial cache n))"
    using assms logFactorial_fill_ok[OF assms refl, of n] by (simp add: logFactorial_def Let_def)
  show "is_finite (fst (logFactorial cache n))"
  proof (cases "n < 0")
    case True then show ?thesis by (simp add: logFactorial_def)
  next
    case False
    let ?c = "logFactorial_fill cache (int (length cache)) n"
    from logFactorial_fill_ok[OF assms refl, of n]
    have ok: "cache_ok ?c" and len: "length ?c = max (length cache) (nat (n + 1))" by auto
    from False len have "nat n < length ?c" by simp
    with ok False show ?thesis
      by (simp add: logFactorial_def Let_def array_get_def cache_ok_def list_all_length)
  qed
qed

lemma logChoose_ok:
  assumes "cache_ok cache"
  shows "cache_ok (snd (logChoose cache n k))"
    and "fst (logChoose cache n k) = NegInf \<or> is_finite (fst (logChoose cache n k))"
    and "0 \<le> k \<Longrightarrow> k \<le> n \<Longrightarrow> is_finite (fst (logChoose cache n k))"
proof -
  obtain fn c1 where e1: "logFactorial cache n = (fn, c1)" by (cases "logFactorial cache n")
  obtain fk c2 where e2: "logFactorial c1 k = (fk, c2)" by (cases "logFactorial c1 k")
  obtain fnk c3 where e3: "logFactorial c2 (n - k) = (fnk, c3)" by (cases "logFactorial c2 (n - k)")
  from logFactorial_ok[OF assms, of n] e1 have ok1: "cache_ok c1" and f1: "is_finite fn" by auto
  from logFactorial_ok[OF ok1, of k] e2 have ok2: "cache_ok c2" and f2: "is_finite fk" by auto
  from logFactorial_ok[OF ok2, of "n - k"] e3 have ok3: "cache_ok c3" and f3: "is_finite fnk" by auto
  from f1 f2 f3 have fin: "is_finite (js_sub (js_sub fn fk) fnk)"
    by (auto simp: is_finite_iff js_sub_def)
  show "cache_ok (snd (logChoose cache n k))"
    using assms ok3 by (simp add: logChoose_def e1 e2 e3)
  show "fst (logChoose cache n k) = NegInf \<or> is_finite (fst (logChoose cache n k))"
    using fin by (simp add: logChoose_def e1 e2 e3)
  show "0 \<le> k \<Longrightarrow> k \<le> n \<Longrightarrow> is_finite (fst (logChoose cache n k))"
    using fin by (simp add: logChoose_def e1 e2 e3)
qed

text \<open>
  With \<open>0 \<le> n \<le> N\<close> the subtracted term \<^verbatim>\<open>logChoose(N, n)\<close> is finite, so
  the exponent is finite or \<^verbatim>\<open>-Infinity\<close> and the PMF value is a finite
  non-negative number.
\<close>

lemma hypergeomPmf_ok:
  assumes "cache_ok cache" and "0 \<le> n" and "n \<le> N"
  shows "cache_ok (snd (hypergeomPmf cache k N K n))"
    and "nonneg_finite (fst (hypergeomPmf cache k N K n))"
proof -
  obtain x c1 where e1: "logChoose cache K k = (x, c1)" by (cases "logChoose cache K k")
  obtain y c2 where e2: "logChoose c1 (N - K) (n - k) = (y, c2)"
    by (cases "logChoose c1 (N - K) (n - k)")
  obtain z c3 where e3: "logChoose c2 N n = (z, c3)" by (cases "logChoose c2 N n")
  from logChoose_ok(1,2)[OF assms(1), of K k] e1
  have ok1: "cache_ok c1" and x: "x = NegInf \<or> is_finite x" by auto
  from logChoose_ok(1,2)[OF ok1, of "N - K" "n - k"] e2
  have ok2: "cache_ok c2" and y: "y = NegInf \<or> is_finite y" by auto
  from logChoose_ok(1)[OF ok2, of N n] e3 have ok3: "cache_ok c3" by simp
  from logChoose_ok(3)[OF ok2 assms(2,3)] e3 have z: "is_finite z" by simp
  show "cache_ok (snd (hypergeomPmf cache k N K n))"
    using ok3 by (simp add: hypergeomPmf_def e1 e2 e3)
  from x y z have "nonneg_finite (js_exp (js_sub (js_add x y) z))"
    by (auto simp: is_finite_iff js_sub_def nonneg_finite_def)
  then show "nonneg_finite (fst (hypergeomPmf cache k N K n))"
    by (simp add: hypergeomPmf_def e1 e2 e3)
qed

lemma fisher_sum_ok:
  "cache_ok cache \<Longrightarrow> 0 \<le> n \<Longrightarrow> n \<le> N \<Longrightarrow> nonneg_finite p \<Longrightarrow>
   cache_ok (snd (fisher_sum cache k maxK N K n p)) \<and>
   nonneg_finite (fst (fisher_sum cache k maxK N K n p))"
proof (induction cache k maxK N K n p rule: fisher_sum.induct)
  case (1 cache k maxK N K n p)
  show ?case
  proof (cases "k \<le> maxK")
    case False
    with "1.prems" show ?thesis by (simp add: fisher_sum.simps)
  next
    case True
    obtain pmf c1 where e: "hypergeomPmf cache k N K n = (pmf, c1)"
      by (cases "hypergeomPmf cache k N K n")
    from hypergeomPmf_ok[OF "1.prems"(1,2,3), of k K] e
    have ok1: "cache_ok c1" and pm: "nonneg_finite pmf" by auto
    from pm "1.prems"(4) have acc: "nonneg_finite (js_add p pmf)"
      by (auto simp: nonneg_finite_def split: number.splits)
    from "1.IH"[OF True e[symmetric] ok1 "1.prems"(2,3) acc] True e
    show ?thesis by (subst (1 2) fisher_sum.simps) simp
  qed
qed

lemma fisherRightTail_ok:
  assumes "cache_ok cache" and "0 \<le> a + b" and "0 \<le> c + d"
  shows "cache_ok (snd (fisherRightTail cache a b c d))"
    and "\<exists>r. pValue (fst (fisherRightTail cache a b c d)) = Fin r \<and> 0 \<le> r \<and> r \<le> 1"
proof -
  let ?N = "a + b + c + d" and ?K = "a + c" and ?n = "a + b"
  obtain p c1 where e: "fisher_sum cache a (min ?K ?n) ?N ?K ?n (Fin 0) = (p, c1)"
    by (cases "fisher_sum cache a (min ?K ?n) ?N ?K ?n (Fin 0)")
  have "nonneg_finite (Fin 0)" by (simp add: nonneg_finite_def)
  from fisher_sum_ok[OF assms(1) assms(2) _ this, of ?N a "min ?K ?n" ?K] assms(3) e
  have ok: "cache_ok c1" and p: "nonneg_finite p" by auto
  show "cache_ok (snd (fisherRightTail cache a b c d))"
    unfolding fisherRightTail_def Let_def e using ok by simp
  from p obtain r where "p = Fin r" "0 \<le> r" by (auto simp: nonneg_finite_iff)
  then show "\<exists>r. pValue (fst (fisherRightTail cache a b c d)) = Fin r \<and> 0 \<le> r \<and> r \<le> 1"
    unfolding fisherRightTail_def Let_def e by simp
qed

lemma fisherRightTail_oddsRatio_eq:
  "oddsRatio (fst (fisherRightTail cache a b c d)) =
     (if b * c = 0 then (if a > 0 then PosInf else Fin 0)
      else Fin (real_of_int (a * d) / real_of_int (b * c)))"
  by (simp add: fisherRightTail_def Let_def num_def split: prod.splits)

section \<open>Claims about the p-value and the odds ratio\<close>

text \<open>
  C1. For every contingency table of non-negative integers \<open>(a, b, c, d)\<close>, the
  \<^verbatim>\<open>pValue\<close> of \<^verbatim>\<open>fisherRightTail(a, b, c, d)\<close> is a finite number in the closed
  interval \<open>[0, 1]\<close>, whatever the state of the log-factorial cache. The upper
  bound comes from the clamp \<^verbatim>\<open>Math.min(1, p)\<close>; the lower bound from the sum
  being a sum of finite non-negative PMF terms, none of them \<^verbatim>\<open>NaN\<close>.
\<close>

theorem C1_pValue_bounds:
  assumes "cache_ok cache" and "0 \<le> a" and "0 \<le> b" and "0 \<le> c" and "0 \<le> d"
  shows "\<exists>r. pValue (fst (fisherRightTail cache a b c d)) = Fin r \<and> 0 \<le> r \<and> r \<le> 1"
proof -
  from assms have "0 \<le> a + b" and "0 \<le> c + d" by simp_all
  with assms(1) show ?thesis by (rule fisherRightTail_ok(2))
qed

theorem C1_pValue_bounds_witness:
  "cache_ok logFactorialCache_init \<and> (0::int) \<le> 3 \<and> (0::int) \<le> 1 \<and> (0::int) \<le> 2 \<and> (0::int) \<le> 14 \<and>
   (\<exists>r. pValue (fst (fisherRightTail logFactorialCache_init 3 1 2 14)) = Fin r \<and> 0 \<le> r \<and> r \<le> 1)"
  using C1_pValue_bounds[of logFactorialCache_init 3 1 2 14]
  by (simp add: cache_ok_def logFactorialCache_init_def)

text \<open>
  C9. With \<open>b\<close>, \<open>c\<close>, \<open>d\<close> non-negative and fixed, the odds ratio is monotone
  non-decreasing in \<open>a\<close> over the non-negative integers: for \<open>0 \<le> a1 \<le> a2\<close>
  the odds ratio at \<open>a1\<close> is \<^verbatim>\<open><=\<close> the odds ratio at \<open>a2\<close>, also in the
  branch \<open>b * c = 0\<close> where the values are \<open>0\<close> and \<^verbatim>\<open>Infinity\<close>.
\<close>

theorem C9_oddsRatio_monotone:
  assumes "0 \<le> a1" and "a1 \<le> a2" and "0 \<le> b" and "0 \<le> c" and "0 \<le> d"
  shows "js_le (oddsRatio (fst (fisherRightTail cache a1 b c d)))
               (oddsRatio (fst (fisherRightTail cache' a2 b c d)))"
proof (cases "b * c = 0")
  case True
  with assms show ?thesis by (simp add: fisherRightTail_oddsRatio_eq)
next
  case False
  with assms have pos: "0 < real_of_int (b * c)"
    by (metis mult_nonneg_nonneg of_int_0_less_iff order_le_less)
  from assms have "real_of_int (a1 * d) \<le> real_of_int (a2 * d)"
    by (simp add: mult_right_mono)
  with pos have "real_of_int (a1 * d) / real_of_int (b * c) \<le> real_of_int (a2 * d) / real_of_int (b * c)"
    by (simp add: divide_right_mono)
  with False show ?thesis by (simp add: fisherRightTail_oddsRatio_eq)
qed

theorem C9_oddsRatio_monotone_witness:
  "(0::int) \<le> 0 \<and> (0::int) \<le> 2 \<and> (0::int) \<le> 0 \<and> (0::int) \<le> 4 \<and> (0::int) \<le> 5 \<and>
   js_le (oddsRatio (fst (fisherRightTail logFactorialCache_init 0 0 4 5)))
         (oddsRatio (fst (fisherRightTail logFactorialCache_init 2 0 4 5)))"
  using C9_oddsRatio_monotone[of 0 2 0 4 5 logFactorialCache_init logFactorialCache_init]
  by simp

section \<open>Facts about sorting\<close>

lemma mset_array_insort: "mset (array_insort cmp x ys) = add_mset x (mset ys)"
  by (induction ys) auto

lemma mset_array_sort: "mset (array_sort cmp xs) = mset xs"
  by (induction xs) (auto simp: array_sort_def mset_array_insort)

lemma set_array_sort: "set (array_sort cmp xs) = set xs"
  by (metis mset_array_sort set_mset_mset)

lemma length_array_sort: "length (array_sort cmp xs) = length xs"
  by (metis mset_array_sort size_mset)

text \<open>
  Where the comparator is positive exactly when the first key is greater, the
  sort is the stable sort by that key.
\<close>

lemma array_insort_key:
  "\<forall>y\<in>set ys. js_positive (cmp x y) \<longleftrightarrow> \<not> key x \<le> key y \<Longrightarrow>
   array_insort cmp x ys = insort_key key x ys"
  by (induction ys) auto

lemma array_sort_key:
  "\<forall>x\<in>set xs. \<forall>y\<in>set xs. js_positive (cmp x y) \<longleftrightarrow> \<not> key x \<le> key y \<Longrightarrow>
   array_sort cmp xs = sort_key key xs"
proof (induction xs)
  case Nil
  show ?case by (simp add: array_sort_def)
next
  case (Cons x xs)
  then have IH: "array_sort cmp xs = sort_key key xs" by simp
  have "array_sort cmp (x # xs) = array_insort cmp x (sort_key key xs)"
    using IH by (simp add: array_sort_def)
  also have "\<dots> = insort_key key x (sort_key key xs)"
    using Cons.prems by (intro array_insort_key) simp
  finally show ?case by simp
qed

lemma insort_key_map:
  "insort_key k (g x) (map g xs) = map g (insort_key (\<lambda>y. k (g y)) x xs)"
  by (induction xs) auto

lemma sort_key_map: "sort_key k (map g xs) = map g (sort_key (\<lambda>y. k (g y)) xs)"
  by (induction xs) (auto simp: insort_key_map)

section \<open>Facts about \<^verbatim>\<open>bhFdr\<close>\<close>

lemma zip_upt_map: "zip (map f xs) [0..<length xs] = map (\<lambda>i. (f (xs ! i), i)) [0..<length xs]"
  by (rule nth_equalityI) auto

lemma bhFdr_indexed_fin:
  "bhFdr_indexed (map Fin ps) =
     map (\<lambda>i. (Fin (ps ! i), i)) (sort_key (\<lambda>i. ps ! i) [0..<length ps])"
proof -
  let ?g = "\<lambda>i. (Fin (ps ! i), i)"
  let ?cmp = "\<lambda>a b :: number \<times> nat. js_sub (fst a) (fst b)"
  have "bhFdr_indexed (map Fin ps) = array_sort ?cmp (map ?g [0..<length ps])"
    using zip_upt_map[of Fin ps] by (simp add: bhFdr_indexed_def)
  also have "\<dots> = sort_key (\<lambda>x. real_of (fst x)) (map ?g [0..<length ps])"
    by (rule array_sort_key) (auto simp: js_sub_def)
  also have "\<dots> = map ?g (sort_key (\<lambda>i. ps ! i) [0..<length ps])"
    by (simp add: sort_key_map)
  finally show ?thesis .
qed

lemma sort_as_index_sort: "map (\<lambda>i. ps ! i) (sort_key (\<lambda>i. ps ! i) [0..<length ps]) = sort ps"
proof -
  have "sort ps = sort_key (\<lambda>x. x) (map (\<lambda>i. ps ! i) [0..<length ps])"
    by (simp add: map_nth)
  also have "\<dots> = map (\<lambda>i. ps ! i) (sort_key (\<lambda>i. ps ! i) [0..<length ps])"
    by (rule sort_key_map)
  finally show ?thesis by simp
qed

text \<open>
  The loop, started at position \<open>n - 1\<close> with running minimum \<open>r\<close>: it writes
  at the index of every sorted position \<open>k < n\<close> the minimum of \<open>r\<close> and the raw
  q-values of the positions \<open>k, \<dots>, n - 1\<close>, and leaves the other entries
  alone.
\<close>

lemma bhFdr_loop_inv:
  assumes len: "length indexed = m"
    and dist: "distinct (map snd indexed)"
    and rng: "\<forall>x\<in>set indexed. snd x < m"
    and fin: "\<forall>k<m. fst (indexed ! k) = Fin (s ! k)"
    and slen: "length s = m"
  shows "n \<le> m \<Longrightarrow> length qv = m \<Longrightarrow>
     length (bhFdr_loop indexed m (int n - 1) (Fin r) qv) = m \<and>
     (\<forall>k<n. bhFdr_loop indexed m (int n - 1) (Fin r) qv ! snd (indexed ! k) =
        Fin (Min (insert r (bh_raw s ` {k..<n})))) \<and>
     (\<forall>j<m. j \<notin> snd ` set (take n indexed) \<longrightarrow>
        bhFdr_loop indexed m (int n - 1) (Fin r) qv ! j = qv ! j)"
proof (induction n arbitrary: r qv)
  case 0
  have "bhFdr_loop indexed m (int 0 - 1) (Fin r) qv = qv"
    by (subst bhFdr_loop.simps) simp
  with "0.prems" show ?case by simp
next
  case (Suc n)
  let ?id = "snd (indexed ! n)"
  let ?r' = "min r (bh_raw s n)"
  let ?qv' = "qv[?id := Fin ?r']"
  let ?res = "bhFdr_loop indexed m (int n - 1) (Fin ?r') ?qv'"
  from Suc.prems have n: "n < m" by simp
  with len rng have id: "?id < m" by (metis nth_mem)
  have q: "js_min (Fin r) (js_div (js_mul (fst (indexed ! n)) (num (int m))) (num (int n + 1)))
           = Fin ?r'"
    using fin n slen by (simp add: num_def bh_raw_def add.commute)
  have setq: "array_set qv (int ?id) (Fin ?r') = ?qv'"
    using id Suc.prems by (simp add: array_set_def)
  have unf: "bhFdr_loop indexed m (int (Suc n) - 1) (Fin r) qv = ?res"
    by (subst bhFdr_loop.simps) (simp add: Let_def q setq)
  from Suc.prems have "n \<le> m" and "length ?qv' = m" by simp_all
  from Suc.IH[OF this, of ?r']
  have L: "length ?res = m"
    and V: "\<forall>k<n. ?res ! snd (indexed ! k) = Fin (Min (insert ?r' (bh_raw s ` {k..<n})))"
    and F: "\<forall>j<m. j \<notin> snd ` set (take n indexed) \<longrightarrow> ?res ! j = ?qv' ! j"
    by auto
  have notin: "?id \<notin> snd ` set (take n indexed)"
  proof
    assume "?id \<in> snd ` set (take n indexed)"
    then obtain k where "k < n" and "snd (indexed ! k) = ?id"
      using n len by (auto simp: in_set_conv_nth)
    with dist n len show False
      by (auto simp: distinct_conv_nth)
  qed
  have take_Suc: "snd ` set (take (Suc n) indexed) = insert ?id (snd ` set (take n indexed))"
    using n len by (simp add: take_Suc_conv_app_nth)
  have V': "\<forall>k<Suc n. ?res ! snd (indexed ! k) = Fin (Min (insert r (bh_raw s ` {k..<Suc n})))"
  proof (intro allI impI)
    fix k assume "k < Suc n"
    show "?res ! snd (indexed ! k) = Fin (Min (insert r (bh_raw s ` {k..<Suc n})))"
    proof (cases "k = n")
      case True
      from F id notin have "?res ! ?id = ?qv' ! ?id" by simp
      also have "\<dots> = Fin ?r'" using id Suc.prems by simp
      finally show ?thesis using True by simp
    next
      case False
      with \<open>k < Suc n\<close> have kn: "k < n" by simp
      then have "{k..<Suc n} = insert n {k..<n}" by auto
      then have "Min (insert r (bh_raw s ` {k..<Suc n}))
                 = Min (insert r (insert (bh_raw s n) (bh_raw s ` {k..<n})))" by simp
      also have "\<dots> = min r (Min (insert (bh_raw s n) (bh_raw s ` {k..<n})))"
        by (rule Min_insert) simp_all
      also have "\<dots> = min r (min (bh_raw s n) (Min (bh_raw s ` {k..<n})))"
        using kn by (subst Min_insert) simp_all
      also have "\<dots> = min ?r' (Min (bh_raw s ` {k..<n}))"
        by (simp add: min.assoc)
      also have "\<dots> = Min (insert ?r' (bh_raw s ` {k..<n}))"
        using kn by (subst Min_insert) simp_all
      finally show ?thesis using V kn by simp
    qed
  qed
  have F': "\<forall>j<m. j \<notin> snd ` set (take (Suc n) indexed) \<longrightarrow> ?res ! j = qv ! j"
    using F by (simp add: take_Suc)
  from L V' F' show ?case unfolding unf by blast
qed

text \<open>What \<^verbatim>\<open>bhFdr\<close> returns at the index sorted to position \<open>k\<close>.\<close>

lemma bhFdr_at_sorted:
  assumes "k < length ps"
  shows "bhFdr (map Fin ps) ! (sort_key (\<lambda>i. ps ! i) [0..<length ps] ! k) = Fin (bh_min (sort ps) k)"
    and "length (bhFdr (map Fin ps)) = length ps"
proof -
  let ?m = "length ps"
  let ?ord = "sort_key (\<lambda>i. ps ! i) [0..<?m]"
  let ?ix = "map (\<lambda>i. (Fin (ps ! i), i)) ?ord"
  have ix: "bhFdr_indexed (map Fin ps) = ?ix" by (rule bhFdr_indexed_fin)
  have snd_ix: "map snd ?ix = ?ord" by (simp add: comp_def)
  have 1: "length ?ix = ?m" by simp
  have 2: "distinct (map snd ?ix)" unfolding snd_ix by simp
  have 3: "\<forall>x\<in>set ?ix. snd x < ?m" by auto
  have 4: "\<forall>k<?m. fst (?ix ! k) = Fin (sort ps ! k)"
    using sort_as_index_sort[of ps, symmetric] by simp
  have 5: "length (sort ps) = ?m" by simp
  from bhFdr_loop_inv[OF 1 2 3 4 5, of ?m "replicate ?m (Fin 1)" 1]
  have L: "length (bhFdr_loop ?ix ?m (int ?m - 1) (Fin 1) (replicate ?m (Fin 1))) = ?m"
    and V: "\<forall>k<?m. bhFdr_loop ?ix ?m (int ?m - 1) (Fin 1) (replicate ?m (Fin 1)) ! snd (?ix ! k)
              = Fin (Min (insert 1 (bh_raw (sort ps) ` {k..<?m})))"
    by auto
  have eq: "bhFdr (map Fin ps) = bhFdr_loop ?ix ?m (int ?m - 1) (Fin 1) (replicate ?m (Fin 1))"
    by (simp add: bhFdr_def Let_def ix)
  show "length (bhFdr (map Fin ps)) = length ps" using L eq by simp
  from V assms have "bhFdr (map Fin ps) ! snd (?ix ! k) = Fin (bh_min (sort ps) k)"
    unfolding eq by (simp add: bh_min_def)
  then show "bhFdr (map Fin ps) ! (?ord ! k) = Fin (bh_min (sort ps) k)"
    using assms by simp
qed

lemma bhFdr_nth:
  assumes "i < length ps"
  shows "\<exists>k<length ps. sort_key (\<lambda>i. ps ! i) [0..<length ps] ! k = i \<and> sort ps ! k = ps ! i \<and>
           bhFdr (map Fin ps) ! i = Fin (bh_min (sort ps) k)"
proof -
  let ?ord = "sort_key (\<lambda>i. ps ! i) [0..<length ps]"
  from assms have "i \<in> set ?ord" by simp
  then obtain k where "k < length ?ord" and ki: "?ord ! k = i"
    unfolding in_set_conv_nth by blast
  then have k: "k < length ps" "?ord ! k = i" by simp_all
  from k have "sort ps ! k = ps ! i"
    using sort_as_index_sort[of ps, symmetric] by simp
  with k bhFdr_at_sorted(1)[OF k(1)] show ?thesis by auto
qed

lemma bh_min_le_1: "bh_min s k \<le> 1"
  unfolding bh_min_def by (rule Min_le) simp_all

lemma bh_min_nonneg:
  assumes "\<forall>x\<in>set s. 0 \<le> x"
  shows "0 \<le> bh_min s k"
proof -
  have "\<forall>j\<in>{k..<length s}. 0 \<le> bh_raw s j"
    using assms by (simp add: bh_raw_def)
  then show ?thesis unfolding bh_min_def by (subst Min_ge_iff) auto
qed

lemma bh_min_mono: "k \<le> k' \<Longrightarrow> bh_min s k \<le> bh_min s k'"
  unfolding bh_min_def by (rule Min_antimono) auto

text \<open>
  For non-negative p-values the raw q-values within a run of equal p-values
  decrease with the rank, so the running minimum is the same on the whole
  run: it depends on the p-value only.
\<close>

lemma bh_min_val:
  assumes srt: "sorted s" and nn: "\<forall>x\<in>set s. 0 \<le> x" and k: "k < length s"
  shows "bh_min s k = bh_val s (s ! k)"
proof (rule antisym)
  let ?A = "insert 1 (bh_raw s ` {k..<length s})"
  let ?B = "insert 1 (bh_raw s ` {j. j < length s \<and> s ! k \<le> s ! j})"
  have sub: "?A \<subseteq> ?B"
    using srt by (auto simp: sorted_iff_nth_mono)
  show "bh_val s (s ! k) \<le> bh_min s k"
    unfolding bh_val_def bh_min_def by (rule Min_antimono[OF sub]) simp_all
  have "Min ?B \<in> ?B" by (rule Min_in) simp_all
  then consider "Min ?B = 1" | j where "j < length s" "s ! k \<le> s ! j" "Min ?B = bh_raw s j"
    by auto
  then have "\<exists>a\<in>?A. a \<le> Min ?B"
  proof cases
    case 1
    then show ?thesis by simp
  next
    case (2 j)
    show ?thesis
    proof (cases "k \<le> j")
      case True
      with 2 show ?thesis by auto
    next
      case False
      then have jk: "j < k" by simp
      with srt k have "s ! j \<le> s ! k" by (simp add: sorted_iff_nth_mono)
      with 2 have eq: "s ! j = s ! k" by simp
      from nn k have "0 \<le> s ! k * real (length s)" by simp
      then have "s ! k * real (length s) / real (k + 1) \<le> s ! k * real (length s) / real (j + 1)"
        using jk by (intro divide_left_mono) simp_all
      then have "bh_raw s k \<le> bh_raw s j" by (simp add: bh_raw_def eq)
      moreover from k have "bh_raw s k \<in> ?A" by simp
      ultimately show ?thesis using 2 by auto
    qed
  qed
  then obtain a where a: "a \<in> ?A" "a \<le> Min ?B" by blast
  have "Min ?A \<le> a" using a(1) by (intro Min_le) simp_all
  then have "Min ?A \<le> Min ?B" using a(2) by (rule order_trans)
  then show "bh_min s k \<le> bh_val s (s ! k)"
    unfolding bh_val_def bh_min_def .
qed

lemma bh_val_mono: "v \<le> v' \<Longrightarrow> bh_val s v \<le> bh_val s v'"
  unfolding bh_val_def by (rule Min_antimono) auto

lemma bhFdr_nth_val:
  assumes "\<forall>p\<in>set ps. 0 \<le> p" and "i < length ps"
  shows "bhFdr (map Fin ps) ! i = Fin (bh_val (sort ps) (ps ! i))"
proof -
  from bhFdr_nth[OF assms(2)] obtain k where k: "k < length ps" "sort ps ! k = ps ! i"
    "bhFdr (map Fin ps) ! i = Fin (bh_min (sort ps) k)" by blast
  have "bh_min (sort ps) k = bh_val (sort ps) (sort ps ! k)"
    using assms(1) k(1) by (intro bh_min_val) simp_all
  with k show ?thesis by simp
qed

lemma mset_permuted:
  assumes "bij_betw \<pi> {..<length ps} {..<length ps}"
  shows "mset (map (\<lambda>i. ps ! \<pi> i) [0..<length ps]) = mset ps"
proof -
  from assms have inj: "inj_on \<pi> {0..<length ps}" and img: "\<pi> ` {0..<length ps} = {0..<length ps}"
    by (auto simp: bij_betw_def atLeast0LessThan)
  have "mset (map (\<lambda>i. ps ! \<pi> i) [0..<length ps])
        = image_mset (\<lambda>i. ps ! \<pi> i) (mset_set {0..<length ps})"
    unfolding mset_map mset_upt ..
  also have "\<dots> = image_mset (\<lambda>i. ps ! i) (image_mset \<pi> (mset_set {0..<length ps}))"
    by (simp add: multiset.map_comp comp_def)
  also have "image_mset \<pi> (mset_set {0..<length ps}) = mset_set {0..<length ps}"
    using image_mset_mset_set[OF inj] img by simp
  also have "image_mset (\<lambda>i. ps ! i) (mset_set {0..<length ps}) = mset (map (\<lambda>i. ps ! i) [0..<length ps])"
    by simp
  also have "\<dots> = mset ps" by (simp add: map_nth)
  finally show ?thesis .
qed

lemma bhFdr_loop_length:
  "\<forall>x\<in>set indexed. snd x < length qv \<Longrightarrow> i < int (length indexed) \<Longrightarrow>
   length (bhFdr_loop indexed m i prev qv) = length qv"
proof (induction indexed m i prev qv rule: bhFdr_loop.induct)
  case (1 indexed m i prev qValues)
  show ?case
  proof (cases "i \<ge> 0")
    case False
    then show ?thesis by (subst bhFdr_loop.simps) simp
  next
    case True
    let ?q = "js_min prev (js_div (js_mul (fst (indexed ! nat i)) (num (int m))) (num (i + 1)))"
    let ?qv = "array_set qValues (int (snd (indexed ! nat i))) ?q"
    from True "1.prems" have "snd (indexed ! nat i) < length qValues" by simp
    then have len: "length ?qv = length qValues" by (simp add: array_set_def)
    with "1.prems" have "\<forall>x\<in>set indexed. snd x < length ?qv" by simp
    from "1.IH"[OF True refl refl this] "1.prems"(2) len
    have "length (bhFdr_loop indexed m (i - 1) ?q ?qv) = length qValues" by simp
    with True show ?thesis by (subst bhFdr_loop.simps) (simp add: Let_def)
  qed
qed

lemma bhFdr_length: "length (bhFdr pValues) = length pValues"
proof -
  let ?ix = "bhFdr_indexed pValues"
  have "set ?ix = set (zip pValues [0..<length pValues])"
    by (simp add: bhFdr_indexed_def set_array_sort)
  then have "\<forall>x\<in>set ?ix. snd x < length (replicate (length pValues) (Fin 1))"
    by (auto dest: set_zip_rightD)
  moreover have "int (length pValues) - 1 < int (length ?ix)"
    by (simp add: bhFdr_indexed_def length_array_sort)
  ultimately show ?thesis
    by (simp add: bhFdr_def Let_def bhFdr_loop_length)
qed

section \<open>Claims about \<^verbatim>\<open>bhFdr\<close>\<close>

text \<open>
  C2. For every list of (finite) p-values, the q-values that \<^verbatim>\<open>bhFdr\<close> returns,
  read in the order of ascending original p-value (the positions \<open>0, \<dots>, m - 1\<close>
  stably sorted by their p-value, the order the code itself sorts into), form a
  non-decreasing sequence. Hence a strictly larger p-value never has a smaller
  q-value; and when no p-value is negative, equal p-values have equal
  q-values, so that the order chosen among equal p-values does not matter.
\<close>

theorem C2_bhFdr_monotone:
  "sorted_wrt js_le (map (\<lambda>i. bhFdr (map Fin ps) ! i) (sort_key (\<lambda>i. ps ! i) [0..<length ps]))
   \<and> (\<forall>i<length ps. \<forall>j<length ps. ps ! i < ps ! j \<longrightarrow>
         js_le (bhFdr (map Fin ps) ! i) (bhFdr (map Fin ps) ! j))
   \<and> ((\<forall>p\<in>set ps. 0 \<le> p) \<longrightarrow>
        (\<forall>i<length ps. \<forall>j<length ps. ps ! i \<le> ps ! j \<longrightarrow>
           js_le (bhFdr (map Fin ps) ! i) (bhFdr (map Fin ps) ! j)))"
proof (intro conjI allI impI)
  let ?ord = "sort_key (\<lambda>i. ps ! i) [0..<length ps]"
  show "sorted_wrt js_le (map (\<lambda>i. bhFdr (map Fin ps) ! i) ?ord)"
  proof (subst sorted_wrt_iff_nth_less, intro allI impI)
    fix k k' assume "k < k'" and "k' < length (map (\<lambda>i. bhFdr (map Fin ps) ! i) ?ord)"
    then have k: "k < length ps" and k': "k' < length ps" by simp_all
    from bh_min_mono[of k k' "sort ps"] \<open>k < k'\<close>
    show "js_le (map (\<lambda>i. bhFdr (map Fin ps) ! i) ?ord ! k) (map (\<lambda>i. bhFdr (map Fin ps) ! i) ?ord ! k')"
      using k k' by (simp add: bhFdr_at_sorted(1))
  qed
next
  fix i j assume i: "i < length ps" and j: "j < length ps" and lt: "ps ! i < ps ! j"
  from bhFdr_nth[OF i] obtain k where k: "k < length ps" "sort ps ! k = ps ! i"
    "bhFdr (map Fin ps) ! i = Fin (bh_min (sort ps) k)" by blast
  from bhFdr_nth[OF j] obtain k' where k': "k' < length ps" "sort ps ! k' = ps ! j"
    "bhFdr (map Fin ps) ! j = Fin (bh_min (sort ps) k')" by blast
  have "k \<le> k'"
  proof (rule ccontr)
    assume "\<not> k \<le> k'"
    then have "k' \<le> k" by simp
    with k(1) have "sort ps ! k' \<le> sort ps ! k"
      using sorted_sort[of ps] by (simp add: sorted_iff_nth_mono)
    with k k' lt show False by simp
  qed
  then show "js_le (bhFdr (map Fin ps) ! i) (bhFdr (map Fin ps) ! j)"
    using k k' by (simp add: bh_min_mono)
next
  fix i j assume nn: "\<forall>p\<in>set ps. 0 \<le> p"
    and i: "i < length ps" and j: "j < length ps" and le: "ps ! i \<le> ps ! j"
  from le show "js_le (bhFdr (map Fin ps) ! i) (bhFdr (map Fin ps) ! j)"
    by (simp add: bhFdr_nth_val[OF nn i] bhFdr_nth_val[OF nn j] bh_val_mono)
qed

theorem C2_bhFdr_monotone_witness:
  "(0::real) \<le> 0.01 \<and> (0::real) \<le> 0.5 \<and> (0::real) \<le> 0.02 \<and> (0.02::real) \<le> 0.5 \<and>
   js_le (bhFdr (map Fin [0.01, 0.5, 0.02]) ! 2) (bhFdr (map Fin [0.01, 0.5, 0.02]) ! 1)"
proof -
  let ?xs = "[0.01, 0.5, 0.02 :: real]"
  have c: "(\<forall>p\<in>set ?xs. 0 \<le> p) \<longrightarrow>
        (\<forall>i<length ?xs. \<forall>j<length ?xs. ?xs ! i \<le> ?xs ! j \<longrightarrow>
           js_le (bhFdr (map Fin ?xs) ! i) (bhFdr (map Fin ?xs) ! j))"
    using C2_bhFdr_monotone[of ?xs] by blast
  have nn: "\<forall>p\<in>set ?xs. 0 \<le> p" by simp
  from c nn have "\<forall>i<length ?xs. \<forall>j<length ?xs. ?xs ! i \<le> ?xs ! j \<longrightarrow>
           js_le (bhFdr (map Fin ?xs) ! i) (bhFdr (map Fin ?xs) ! j)"
    by (rule mp)
  from this[rule_format, of 2 1] show ?thesis by simp
qed

text \<open>
  C3. \<^verbatim>\<open>bhFdr\<close> is index-aligned on every list of finite p-values none of
  which is negative: the result has the length of the input; the q-value at
  position \<open>i\<close> is determined by the p-value at position \<open>i\<close> and the sorted
  list of all p-values, not by the position; and for every permutation \<open>\<pi>\<close> of
  the positions, the q-values of the permuted list are the q-values of the
  list, permuted by \<open>\<pi>\<close>.
\<close>

theorem C3_bhFdr_index_aligned:
  assumes "\<forall>p\<in>set ps. 0 \<le> p" and "bij_betw \<pi> {..<length ps} {..<length ps}"
  shows "length (bhFdr (map Fin ps)) = length ps
    \<and> (\<forall>i<length ps. bhFdr (map Fin ps) ! i = Fin (bh_val (sort ps) (ps ! i)))
    \<and> bhFdr (map Fin (map (\<lambda>i. ps ! \<pi> i) [0..<length ps]))
        = map (\<lambda>i. bhFdr (map Fin ps) ! \<pi> i) [0..<length ps]"
proof (intro conjI allI impI)
  let ?ps' = "map (\<lambda>i. ps ! \<pi> i) [0..<length ps]"
  show "length (bhFdr (map Fin ps)) = length ps"
    by (simp add: bhFdr_length)
  show "\<And>i. i < length ps \<Longrightarrow> bhFdr (map Fin ps) ! i = Fin (bh_val (sort ps) (ps ! i))"
    using assms(1) by (rule bhFdr_nth_val)
  have ms: "mset ?ps' = mset ps" using assms(2) by (rule mset_permuted)
  then have srt: "sort ?ps' = sort ps"
    by (intro properties_for_sort) simp_all
  have nn': "\<forall>p\<in>set ?ps'. 0 \<le> p"
    using assms(1) ms by (metis set_mset_mset)
  show "bhFdr (map Fin ?ps') = map (\<lambda>i. bhFdr (map Fin ps) ! \<pi> i) [0..<length ps]"
  proof (rule nth_equalityI)
    show "length (bhFdr (map Fin ?ps')) = length (map (\<lambda>i. bhFdr (map Fin ps) ! \<pi> i) [0..<length ps])"
      by (simp add: bhFdr_length)
  next
    fix i assume "i < length (bhFdr (map Fin ?ps'))"
    then have i: "i < length ps" by (simp add: bhFdr_length)
    then have pi: "\<pi> i < length ps"
      using assms(2) by (auto simp: bij_betw_def)
    from i have i': "i < length ?ps'" by simp
    have "bhFdr (map Fin ?ps') ! i = Fin (bh_val (sort ?ps') (?ps' ! i))"
      using nn' i' by (rule bhFdr_nth_val)
    also have "\<dots> = Fin (bh_val (sort ps) (ps ! \<pi> i))"
      using i by (simp add: srt)
    also have "\<dots> = bhFdr (map Fin ps) ! \<pi> i"
      using bhFdr_nth_val[OF assms(1) pi] by simp
    finally show "bhFdr (map Fin ?ps') ! i = map (\<lambda>i. bhFdr (map Fin ps) ! \<pi> i) [0..<length ps] ! i"
      using i by simp
  qed
qed

theorem C3_bhFdr_index_aligned_witness:
  "(0::real) \<le> 0.01 \<and> (0::real) \<le> 0.5 \<and> (0::real) \<le> 0.02 \<and>
   bij_betw (\<lambda>i. 2 - i) {..<length [0.01, 0.5, 0.02 :: real]} {..<length [0.01, 0.5, 0.02 :: real]} \<and>
   bhFdr (map Fin [0.02, 0.5, 0.01]) =
     [bhFdr (map Fin [0.01, 0.5, 0.02]) ! 2, bhFdr (map Fin [0.01, 0.5, 0.02]) ! 1,
      bhFdr (map Fin [0.01, 0.5, 0.02]) ! 0]"
proof -
  let ?xs = "[0.01, 0.5, 0.02 :: real]"
  have nn: "\<forall>p\<in>set ?xs. 0 \<le> p" by simp
  have len3: "length ?xs = 3" by simp
  have "inj_on (\<lambda>i::nat. 2 - i) {..<3}"
    by (rule inj_onI) auto
  moreover have "(\<lambda>i::nat. 2 - i) ` {..<3} = {..<3}"
    by (auto simp: image_iff lessThan_Suc numeral_3_eq_3)
  ultimately have bij: "bij_betw (\<lambda>i. 2 - i) {..<length ?xs} {..<length ?xs}"
    unfolding len3 bij_betw_def by blast
  from C3_bhFdr_index_aligned[OF nn bij] bij show ?thesis
    by (simp add: upt_conv_Cons)
qed

text \<open>
  A remark on numbers that are not p-values. Among equal negative values the
  raw q-value \<open>p * m / rank\<close> grows with the rank, so the running minimum
  differs within the tie and the q-value depends on the position: the list
  \<open>[-1, -1]\<close> is unchanged by exchanging its two positions, its q-values
  \<open>[-2, -1]\<close> are not.
\<close>

lemma bhFdr_negative_tie:
  "bhFdr [Fin (- 1), Fin (- 1)] \<noteq>
     [bhFdr [Fin (- 1), Fin (- 1)] ! 1, bhFdr [Fin (- 1), Fin (- 1)] ! 0]"
proof -
  have "bhFdr [Fin (- 1), Fin (- 1)] = [Fin (- 2), Fin (- 1)]"
    by (simp add: bhFdr_def bhFdr_indexed_def array_sort_def js_sub_def bhFdr_loop.simps
          array_set_def num_def Let_def upt_conv_Cons)
  then show ?thesis by simp
qed

text \<open>
  C4. On the two literal inputs of the specification: \<^verbatim>\<open>bhFdr([0.01, 0.02, 0.03])\<close>
  is \<open>[0.03, 0.03, 0.03]\<close>, and \<^verbatim>\<open>bhFdr([0.01, 0.50, 0.02])\<close> is, in the order
  of the input, \<open>[0.03, 0.5, 0.03]\<close>: the raw q-value of \<open>0.02\<close> at rank 2 of 3
  is \<open>0.02 * 3 / 2 = 0.03\<close>. It is not \<open>[0.03, 0.5, 0.06]\<close>.
\<close>

theorem C4_bhFdr_literals:
  "bhFdr [Fin 0.01, Fin 0.02, Fin 0.03] = [Fin 0.03, Fin 0.03, Fin 0.03] \<and>
   bhFdr [Fin 0.01, Fin 0.50, Fin 0.02] = [Fin 0.03, Fin 0.5, Fin 0.03]"
  by (simp add: bhFdr_def bhFdr_indexed_def array_sort_def js_sub_def bhFdr_loop.simps
        array_set_def num_def Let_def upt_conv_Cons)

theorem C4_bhFdr_literals_counterexample:
  "bhFdr [Fin 0.01, Fin 0.50, Fin 0.02] \<noteq> [Fin 0.03, Fin 0.5, Fin 0.06]"
  by (simp add: bhFdr_def bhFdr_indexed_def array_sort_def js_sub_def bhFdr_loop.simps
        array_set_def num_def Let_def upt_conv_Cons)

text \<open>
  C10. \<^verbatim>\<open>bhFdr\<close> returns a list of exactly the length of its input; for every
  list of (finite) p-values every returned q-value is a finite number that is
  at most \<open>1\<close>; and if no p-value is negative, every returned q-value lies in
  \<open>[0, 1]\<close>.
\<close>

theorem C10_bhFdr_length_range:
  "length (bhFdr pValues) = length pValues
   \<and> (\<forall>q\<in>set (bhFdr (map Fin ps)). \<exists>r. q = Fin r \<and> r \<le> 1)
   \<and> ((\<forall>p\<in>set ps. 0 \<le> p) \<longrightarrow>
        (\<forall>q\<in>set (bhFdr (map Fin ps)). \<exists>r. q = Fin r \<and> 0 \<le> r \<and> r \<le> 1))"
proof (intro conjI ballI impI)
  show "length (bhFdr pValues) = length pValues" by (rule bhFdr_length)
next
  fix q assume "q \<in> set (bhFdr (map Fin ps))"
  then obtain i where "i < length ps" and "q = bhFdr (map Fin ps) ! i"
    by (auto simp: in_set_conv_nth bhFdr_length)
  with bhFdr_nth[of i ps] bh_min_le_1 show "\<exists>r. q = Fin r \<and> r \<le> 1" by auto
next
  fix q assume nn: "\<forall>p\<in>set ps. 0 \<le> p" and "q \<in> set (bhFdr (map Fin ps))"
  then obtain i where "i < length ps" and "q = bhFdr (map Fin ps) ! i"
    by (auto simp: in_set_conv_nth bhFdr_length)
  moreover from nn have "\<And>k. 0 \<le> bh_min (sort ps) k"
    by (intro bh_min_nonneg) simp
  ultimately show "\<exists>r. q = Fin r \<and> 0 \<le> r \<and> r \<le> 1"
    using bhFdr_nth[of i ps] bh_min_le_1 by auto
qed

theorem C10_bhFdr_length_range_witness:
  "(0::real) \<le> 0.01 \<and> (0::real) \<le> 0.5 \<and> (0::real) \<le> 0.02 \<and>
   length (bhFdr (map Fin [0.01, 0.5, 0.02])) = 3 \<and>
   (\<exists>r. bhFdr (map Fin [0.01, 0.5, 0.02]) ! 1 = Fin r \<and> 0 \<le> r \<and> r \<le> 1)"
proof -
  let ?xs = "[0.01, 0.5, 0.02 :: real]"
  note c = C10_bhFdr_length_range[of "map Fin ?xs" ?xs]
  have nn: "\<forall>p\<in>set ?xs. 0 \<le> p" by simp
  from c have len: "length (bhFdr (map Fin ?xs)) = 3" by simp
  then have "bhFdr (map Fin ?xs) ! 1 \<in> set (bhFdr (map Fin ?xs))" by (intro nth_mem) simp
  moreover from c nn have "\<forall>q\<in>set (bhFdr (map Fin ?xs)). \<exists>r. q = Fin r \<and> 0 \<le> r \<and> r \<le> 1"
    by blast
  ultimately have "\<exists>r. bhFdr (map Fin ?xs) ! 1 = Fin r \<and> 0 \<le> r \<and> r \<le> 1" by blast
  with len show ?thesis by simp
qed

section \<open>Facts about the universe restriction and the contingency table\<close>

lemma restrict_foldl:
  "distinct acc \<Longrightarrow>
   distinct (foldl (\<lambda>acc g. let gene = toUpperCase g
                     in if set_has universe gene then set_add acc gene else acc) acc genes) \<and>
   set (foldl (\<lambda>acc g. let gene = toUpperCase g
                     in if set_has universe gene then set_add acc gene else acc) acc genes)
     = set acc \<union> (toUpperCase ` set genes \<inter> set universe)"
proof (induction genes arbitrary: acc)
  case Nil
  then show ?case by simp
next
  case (Cons g genes)
  let ?acc = "if set_has universe (toUpperCase g) then set_add acc (toUpperCase g) else acc"
  from Cons.prems have d: "distinct ?acc"
    by (simp add: set_add_def set_has_def)
  have s: "set ?acc = set acc \<union> ({toUpperCase g} \<inter> set universe)"
    by (auto simp: set_add_def set_has_def)
  from Cons.IH[OF d] s show ?case by (auto simp: Let_def)
qed

lemma restrict_to_universe_distinct: "distinct (restrict_to_universe universe genes)"
  using restrict_foldl[of "[]" universe genes] by (simp add: restrict_to_universe_def)

lemma restrict_to_universe_set:
  "set (restrict_to_universe universe genes) = toUpperCase ` set genes \<inter> set universe"
  using restrict_foldl[of "[]" universe genes] by (simp add: restrict_to_universe_def)

lemma contingency_cells:
  assumes dT: "distinct T" and dP: "distinct P"
    and sT: "set T \<subseteq> set U" and sP: "set P \<subseteq> set U"
    and eq: "contingency T P (int (set_size U)) = (a, b, c, d)"
  shows "a = int (card (set T \<inter> set P))"
    and "b = int (card (set T)) - a"
    and "c = int (card (set P)) - a"
    and "d = int (set_size U) - a - b - c"
    and "0 \<le> a" and "0 \<le> b" and "0 \<le> c" and "0 \<le> d"
    and "a + b + c + d = int (set_size U)"
proof -
  have fl: "length (filter (\<lambda>g. set_has P g) T) = card (set T \<inter> set P)"
  proof -
    have "distinct (filter (\<lambda>g. set_has P g) T)" using dT by simp
    then have "length (filter (\<lambda>g. set_has P g) T) = card (set (filter (\<lambda>g. set_has P g) T))"
      by (rule distinct_card[symmetric])
    also have "set (filter (\<lambda>g. set_has P g) T) = set T \<inter> set P"
      by (auto simp: set_has_def)
    finally show ?thesis .
  qed
  from eq have a: "a = int (card (set T \<inter> set P))"
    and b: "b = int (length T) - a" and c: "c = int (length P) - a"
    and d: "d = int (length U) - a - b - c"
    by (simp_all add: contingency_def Let_def fl set_size_def)
  have lT: "length T = card (set T)" and lP: "length P = card (set P)"
    using dT dP by (simp_all add: distinct_card)
  have le1: "card (set T \<inter> set P) \<le> card (set T)" by (intro card_mono) simp_all
  have le2: "card (set T \<inter> set P) \<le> card (set P)" by (intro card_mono) simp_all
  have un: "card (set T) + card (set P) = card (set T \<union> set P) + card (set T \<inter> set P)"
    by (rule card_Un_Int) simp_all
  have "card (set T \<union> set P) \<le> card (set U)"
    using sT sP by (intro card_mono) simp_all
  also have "\<dots> \<le> length U" by (rule card_length)
  finally have le3: "card (set T \<union> set P) \<le> length U" .
  show "a = int (card (set T \<inter> set P))" by (rule a)
  show "b = int (card (set T)) - a" using b lT by simp
  show "c = int (card (set P)) - a" using c lP by simp
  show "d = int (set_size U) - a - b - c" using d by (simp add: set_size_def)
  show "0 \<le> a" using a by simp
  show "0 \<le> b" using a b lT le1 by simp
  show "0 \<le> c" using a c lP le2 by simp
  show "0 \<le> d" using a b c d lT lP un le3 by linarith
  show "a + b + c + d = int (set_size U)" using d by (simp add: set_size_def)
qed

section \<open>Claim about the contingency table\<close>

text \<open>
  C6. For every TF, with its target set and the term gene set restricted to
  the universe first, the contingency table that \<^verbatim>\<open>computeEnrichment\<close>
  constructs satisfies \<open>a = |targetGenes \<inter> pathway|\<close>, \<open>b = |targetGenes| - a\<close>,
  \<open>c = |pathway| - a\<close>, \<open>d = |universe| - a - b - c\<close>; the four cells are
  non-negative integers and their sum is the size of the universe.
\<close>

theorem C6_contingency_table:
  "case contingency (restrict_to_universe universe targets)
          (restrict_to_universe universe pathwayGeneSet) (int (set_size universe)) of
     (a, b, c, d) \<Rightarrow>
       a = int (card (set (restrict_to_universe universe targets)
                      \<inter> set (restrict_to_universe universe pathwayGeneSet))) \<and>
       b = int (card (set (restrict_to_universe universe targets))) - a \<and>
       c = int (card (set (restrict_to_universe universe pathwayGeneSet))) - a \<and>
       d = int (set_size universe) - a - b - c \<and>
       0 \<le> a \<and> 0 \<le> b \<and> 0 \<le> c \<and> 0 \<le> d \<and>
       a + b + c + d = int (set_size universe) \<and>
       int (set_size (restrict_to_universe universe targets)) = a + b \<and>
       int (set_size (restrict_to_universe universe pathwayGeneSet)) = a + c"
proof -
  let ?T = "restrict_to_universe universe targets"
  let ?P = "restrict_to_universe universe pathwayGeneSet"
  obtain a b c d where eq: "contingency ?T ?P (int (set_size universe)) = (a, b, c, d)"
    by (cases "contingency ?T ?P (int (set_size universe))") auto
  have sT: "set ?T \<subseteq> set universe" and sP: "set ?P \<subseteq> set universe"
    by (auto simp: restrict_to_universe_set)
  note cc = contingency_cells[OF restrict_to_universe_distinct restrict_to_universe_distinct sT sP eq]
  have sz: "int (set_size ?T) = a + b" "int (set_size ?P) = a + c"
    using eq by (simp_all add: contingency_def Let_def)
  show ?thesis unfolding eq using cc sz by simp
qed

section \<open>Facts about the loop over the TFs\<close>

lemma enrich_tf_skip:
  assumes "restrict_to_universe universe targets = [] \<or> pathway = []"
  shows "enrich_tf universe n pathway (results, cache) (name, targets) = (results, cache)"
  using assms by (auto simp: enrich_tf_def Let_def set_size_def split: prod.splits)

lemma enrich_tf_row:
  assumes "restrict_to_universe universe targets \<noteq> []" and "pathway \<noteq> []"
    and "contingency (restrict_to_universe universe targets) pathway n = (a, b, c, d)"
  shows "enrich_tf universe n pathway (results, cache) (name, targets) =
    (results @
       [\<lparr>pValue = pValue (fst (fisherRightTail cache a b c d)),
         oddsRatio = oddsRatio (fst (fisherRightTail cache a b c d)),
         tf = name, overlap = a,
         tfTargets = int (set_size (restrict_to_universe universe targets)),
         pathwayGenes = int (set_size pathway), fdr = Fin 1\<rparr>],
     snd (fisherRightTail cache a b c d))"
  using assms by (simp add: enrich_tf_def Let_def set_size_def split: prod.splits)

lemma foldl_enrich_tf_names:
  "map tf (fst (foldl (enrich_tf universe n pathway) (results, cache) tfs)) =
     map tf results @
     map fst (filter (\<lambda>(name, targets).
        restrict_to_universe universe targets \<noteq> [] \<and> pathway \<noteq> []) tfs)"
proof (induction tfs arbitrary: results cache)
  case Nil
  show ?case by simp
next
  case (Cons e tfs)
  obtain name targets where e: "e = (name, targets)" by (cases e)
  show ?case
  proof (cases "restrict_to_universe universe targets = [] \<or> pathway = []")
    case True
    then show ?thesis
      using Cons.IH[of results cache] by (auto simp: e enrich_tf_skip)
  next
    case False
    obtain a b c d where
      ct: "contingency (restrict_to_universe universe targets) pathway n = (a, b, c, d)"
      by (cases "contingency (restrict_to_universe universe targets) pathway n") auto
    from False have ne: "restrict_to_universe universe targets \<noteq> []" "pathway \<noteq> []" by simp_all
    show ?thesis
      unfolding e foldl_Cons enrich_tf_row[OF ne ct] Cons.IH
      using ne by simp
  qed
qed

text \<open>
  With the term gene set restricted to the universe, every row has a finite
  p-value in \<open>[0, 1]\<close>, and the cache stays well-formed.
\<close>

lemma foldl_enrich_tf_pValues:
  assumes P: "pathway = restrict_to_universe universe pathwayGeneSet"
    and n: "n = int (set_size universe)"
  shows "cache_ok cache \<Longrightarrow>
     \<forall>r\<in>set results. \<exists>v. pValue r = Fin v \<and> 0 \<le> v \<and> v \<le> 1 \<Longrightarrow>
     cache_ok (snd (foldl (enrich_tf universe n pathway) (results, cache) tfs)) \<and>
     (\<forall>r\<in>set (fst (foldl (enrich_tf universe n pathway) (results, cache) tfs)).
        \<exists>v. pValue r = Fin v \<and> 0 \<le> v \<and> v \<le> 1)"
proof (induction tfs arbitrary: results cache)
  case Nil
  then show ?case by simp
next
  case (Cons e tfs)
  obtain name targets where e: "e = (name, targets)" by (cases e)
  let ?T = "restrict_to_universe universe targets"
  show ?case
  proof (cases "?T = [] \<or> pathway = []")
    case True
    then show ?thesis
      using Cons.IH[OF Cons.prems] by (simp add: e enrich_tf_skip)
  next
    case False
    obtain a b c d where ct: "contingency ?T pathway n = (a, b, c, d)"
      by (cases "contingency ?T pathway n") auto
    from False have ne: "?T \<noteq> []" "pathway \<noteq> []" by simp_all
    have sT: "set ?T \<subseteq> set universe" and sP: "set pathway \<subseteq> set universe"
      by (auto simp: restrict_to_universe_set P)
    have dP: "distinct pathway" unfolding P by (rule restrict_to_universe_distinct)
    note cc = contingency_cells[OF restrict_to_universe_distinct dP sT sP ct[unfolded n]]
    from cc have nn: "0 \<le> a + b" "0 \<le> c + d" by simp_all
    note fr = fisherRightTail_ok[OF Cons.prems(1) nn]
    let ?row = "\<lparr>pValue = pValue (fst (fisherRightTail cache a b c d)),
         oddsRatio = oddsRatio (fst (fisherRightTail cache a b c d)),
         tf = name, overlap = a,
         tfTargets = int (set_size ?T),
         pathwayGenes = int (set_size pathway), fdr = Fin 1\<rparr>"
    have rows: "\<forall>r\<in>set (results @ [?row]). \<exists>v. pValue r = Fin v \<and> 0 \<le> v \<and> v \<le> 1"
      using Cons.prems(2) fr(2) by auto
    from Cons.IH[OF fr(1) rows] show ?thesis
      unfolding e foldl_Cons enrich_tf_row[OF ne ct] .
  qed
qed

section \<open>Facts about the final ranking\<close>

lemma set_array_insort: "set (array_insort cmp x ys) = insert x (set ys)"
  by (induction ys) auto

lemma sorted_wrt_array_insort:
  assumes "\<And>y. y \<in> set ys \<Longrightarrow> js_positive (cmp x y) \<Longrightarrow> R y x"
    and "\<And>y. y \<in> set ys \<Longrightarrow> \<not> js_positive (cmp x y) \<Longrightarrow> R x y"
    and "\<And>y z. y \<in> set ys \<Longrightarrow> z \<in> set ys \<Longrightarrow> R x y \<Longrightarrow> R y z \<Longrightarrow> R x z"
    and "sorted_wrt R ys"
  shows "sorted_wrt R (array_insort cmp x ys)"
  using assms
proof (induction ys)
  case Nil
  show ?case by simp
next
  case (Cons y ys)
  from Cons.prems(4) have tail: "sorted_wrt R ys" and head: "\<forall>z\<in>set ys. R y z" by simp_all
  show ?case
  proof (cases "js_positive (cmp x y)")
    case True
    have 1: "\<And>w. w \<in> set ys \<Longrightarrow> js_positive (cmp x w) \<Longrightarrow> R w x"
      using Cons.prems(1) by simp
    have 2: "\<And>w. w \<in> set ys \<Longrightarrow> \<not> js_positive (cmp x w) \<Longrightarrow> R x w"
      using Cons.prems(2) by simp
    have 3: "\<And>w z. w \<in> set ys \<Longrightarrow> z \<in> set ys \<Longrightarrow> R x w \<Longrightarrow> R w z \<Longrightarrow> R x z"
    proof -
      fix w z assume "w \<in> set ys" "z \<in> set ys" "R x w" "R w z"
      then show "R x z" using Cons.prems(3)[of w z] by simp
    qed
    have srt: "sorted_wrt R (array_insort cmp x ys)"
      using 1 2 3 tail by (rule Cons.IH)
    have "R y x" using Cons.prems(1)[of y] True by simp
    with head have "\<forall>z\<in>set (array_insort cmp x ys). R y z"
      by (simp add: set_array_insort)
    with srt True show ?thesis by simp
  next
    case False
    then have xy: "R x y" using Cons.prems(2)[of y] by simp
    have "\<forall>z\<in>set ys. R x z"
    proof
      fix z assume z: "z \<in> set ys"
      with head have "R y z" by simp
      with xy z show "R x z" using Cons.prems(3)[of y z] by simp
    qed
    with xy False head tail show ?thesis by simp
  qed
qed

lemma sorted_wrt_array_sort:
  assumes "\<And>x y. x \<in> set xs \<Longrightarrow> y \<in> set xs \<Longrightarrow> js_positive (cmp x y) \<Longrightarrow> R y x"
    and "\<And>x y. x \<in> set xs \<Longrightarrow> y \<in> set xs \<Longrightarrow> \<not> js_positive (cmp x y) \<Longrightarrow> R x y"
    and "\<And>x y z. x \<in> set xs \<Longrightarrow> y \<in> set xs \<Longrightarrow> z \<in> set xs \<Longrightarrow> R x y \<Longrightarrow> R y z \<Longrightarrow> R x z"
  shows "sorted_wrt R (array_sort cmp xs)"
  using assms
proof (induction xs)
  case Nil
  show ?case by (simp add: array_sort_def)
next
  case (Cons x xs)
  have 1: "\<And>u v. u \<in> set xs \<Longrightarrow> v \<in> set xs \<Longrightarrow> js_positive (cmp u v) \<Longrightarrow> R v u"
    using Cons.prems(1) by simp
  have 2: "\<And>u v. u \<in> set xs \<Longrightarrow> v \<in> set xs \<Longrightarrow> \<not> js_positive (cmp u v) \<Longrightarrow> R u v"
    using Cons.prems(2) by simp
  have 3: "\<And>u v w. u \<in> set xs \<Longrightarrow> v \<in> set xs \<Longrightarrow> w \<in> set xs \<Longrightarrow> R u v \<Longrightarrow> R v w \<Longrightarrow> R u w"
  proof -
    fix u v w assume "u \<in> set xs" "v \<in> set xs" "w \<in> set xs" "R u v" "R v w"
    then show "R u w" using Cons.prems(3)[of u v w] by simp
  qed
  have IH: "sorted_wrt R (array_sort cmp xs)"
    using 1 2 3 by (rule Cons.IH)
  have "sorted_wrt R (array_insort cmp x (array_sort cmp xs))"
  proof (rule sorted_wrt_array_insort[OF _ _ _ IH])
    fix y assume "y \<in> set (array_sort cmp xs)"
    then have y: "y \<in> set xs" by (simp add: set_array_sort)
    { assume "js_positive (cmp x y)" with y show "R y x" using Cons.prems(1)[of x y] by simp }
    { assume "\<not> js_positive (cmp x y)" with y show "R x y" using Cons.prems(2)[of x y] by simp }
  next
    fix y z assume "y \<in> set (array_sort cmp xs)" "z \<in> set (array_sort cmp xs)"
    then have "y \<in> set xs" "z \<in> set xs" by (simp_all add: set_array_sort)
    moreover assume "R x y" "R y z"
    ultimately show "R x z" using Cons.prems(3)[of x y z] by simp
  qed
  then show ?case by (simp add: array_sort_def)
qed

text \<open>
  On rows with finite p-values the comparator is positive exactly when the
  second row has to come first: it has the smaller p-value, or the same
  p-value and the larger overlap.
\<close>

lemma compare_results_positive:
  assumes "pValue x = Fin u" and "pValue y = Fin v"
  shows "js_positive (compare_results x y) \<longleftrightarrow> v < u \<or> (u = v \<and> overlap x < overlap y)"
  using assms by (auto simp: compare_results_def js_or_def js_sub_def num_def)

lemma ranking_sorted:
  assumes fin: "\<forall>r\<in>set rows. \<exists>v. pValue r = Fin v"
  shows "sorted_wrt (\<lambda>x y. js_lt (pValue x) (pValue y) \<or> (pValue x = pValue y \<and> overlap y \<le> overlap x))
           (array_sort compare_results rows)"
proof (rule sorted_wrt_array_sort)
  fix x y assume "x \<in> set rows" "y \<in> set rows"
  with fin obtain u v where uv: "pValue x = Fin u" "pValue y = Fin v" by blast
  { assume "js_positive (compare_results x y)"
    then show "js_lt (pValue y) (pValue x) \<or> (pValue y = pValue x \<and> overlap x \<le> overlap y)"
      using uv by (auto simp: compare_results_positive[OF uv]) }
  { assume "\<not> js_positive (compare_results x y)"
    then show "js_lt (pValue x) (pValue y) \<or> (pValue x = pValue y \<and> overlap y \<le> overlap x)"
      using uv by (auto simp: compare_results_positive[OF uv]) }
next
  fix x y z assume "x \<in> set rows" "y \<in> set rows" "z \<in> set rows"
  with fin obtain u v w where uvw: "pValue x = Fin u" "pValue y = Fin v" "pValue z = Fin w" by blast
  assume "js_lt (pValue x) (pValue y) \<or> (pValue x = pValue y \<and> overlap y \<le> overlap x)"
    and "js_lt (pValue y) (pValue z) \<or> (pValue y = pValue z \<and> overlap z \<le> overlap y)"
  then show "js_lt (pValue x) (pValue z) \<or> (pValue x = pValue z \<and> overlap z \<le> overlap x)"
    using uvw by auto
qed

lemma map_fdr_update:
  assumes "\<And>r q. sel (r\<lparr>fdr := q\<rparr>) = sel r"
  shows "map sel (map (\<lambda>(r, idx). r\<lparr>fdr := array_get qs (int idx)\<rparr>) (zip rs [0..<length rs]))
         = map sel rs"
proof -
  have "map sel (map (\<lambda>(r, idx). r\<lparr>fdr := array_get qs (int idx)\<rparr>) (zip rs [0..<length rs]))
        = map (\<lambda>x. sel (fst x)) (zip rs [0..<length rs])"
    by (simp add: assms split_def)
  also have "\<dots> = map sel rs"
    by (rule nth_equalityI) simp_all
  finally show ?thesis .
qed

lemma computeEnrichment_names:
  "mset (map tf (fst (computeEnrichment cache tfTargetMap pathwayGeneSet universe))) =
   mset (map fst (filter (\<lambda>(name, targets).
          restrict_to_universe universe targets \<noteq> [] \<and>
          restrict_to_universe universe pathwayGeneSet \<noteq> []) tfTargetMap))"
proof -
  let ?n = "int (set_size universe)"
  let ?P = "restrict_to_universe universe pathwayGeneSet"
  let ?st = "foldl (enrich_tf universe ?n ?P) ([], cache) tfTargetMap"
  obtain results cache' where st: "?st = (results, cache')" by (cases ?st)
  let ?qs = "bhFdr (map pValue results)"
  let ?rs = "map (\<lambda>(r, idx). r\<lparr>fdr := array_get ?qs (int idx)\<rparr>) (zip results [0..<length results])"
  have res: "fst (computeEnrichment cache tfTargetMap pathwayGeneSet universe)
             = array_sort compare_results ?rs"
    by (simp add: computeEnrichment_def Let_def st)
  have "mset (map tf (array_sort compare_results ?rs)) = mset (map tf ?rs)"
    unfolding mset_map mset_array_sort ..
  also have "map tf ?rs = map tf results" by (rule map_fdr_update) simp
  also have "map tf results = map tf (fst ?st)" by (simp add: st)
  also have "\<dots> = map fst (filter (\<lambda>(name, targets).
          restrict_to_universe universe targets \<noteq> [] \<and> ?P \<noteq> []) tfTargetMap)"
    by (simp add: foldl_enrich_tf_names)
  finally show ?thesis unfolding res .
qed

lemma computeEnrichment_sorted:
  assumes "cache_ok cache"
  shows "sorted_wrt (\<lambda>x y. js_lt (pValue x) (pValue y) \<or> (pValue x = pValue y \<and> overlap y \<le> overlap x))
           (fst (computeEnrichment cache tfTargetMap pathwayGeneSet universe))"
    and "\<forall>r\<in>set (fst (computeEnrichment cache tfTargetMap pathwayGeneSet universe)).
           \<exists>v. pValue r = Fin v \<and> 0 \<le> v \<and> v \<le> 1"
proof -
  let ?n = "int (set_size universe)"
  let ?P = "restrict_to_universe universe pathwayGeneSet"
  let ?st = "foldl (enrich_tf universe ?n ?P) ([], cache) tfTargetMap"
  obtain results cache' where st: "?st = (results, cache')" by (cases ?st)
  let ?qs = "bhFdr (map pValue results)"
  let ?rs = "map (\<lambda>(r, idx). r\<lparr>fdr := array_get ?qs (int idx)\<rparr>) (zip results [0..<length results])"
  have res: "fst (computeEnrichment cache tfTargetMap pathwayGeneSet universe)
             = array_sort compare_results ?rs"
    by (simp add: computeEnrichment_def Let_def st)
  from foldl_enrich_tf_pValues[OF refl refl assms, of "[]" universe pathwayGeneSet tfTargetMap]
  have pv: "\<forall>r\<in>set results. \<exists>v. pValue r = Fin v \<and> 0 \<le> v \<and> v \<le> 1"
    by (simp add: st)
  have "map pValue ?rs = map pValue results" by (rule map_fdr_update) simp
  then have "set (map pValue ?rs) = set (map pValue results)" by (rule arg_cong)
  then have img: "pValue ` set ?rs = pValue ` set results" unfolding set_map .
  have pv': "\<forall>r\<in>set ?rs. \<exists>v. pValue r = Fin v \<and> 0 \<le> v \<and> v \<le> 1"
  proof
    fix r assume "r \<in> set ?rs"
    then have "pValue r \<in> pValue ` set results" unfolding img[symmetric] by (rule imageI)
    then obtain r' where "r' \<in> set results" "pValue r = pValue r'" by blast
    with pv show "\<exists>v. pValue r = Fin v \<and> 0 \<le> v \<and> v \<le> 1" by auto
  qed
  then have fin: "\<forall>r\<in>set ?rs. \<exists>v. pValue r = Fin v" by blast
  show "sorted_wrt (\<lambda>x y. js_lt (pValue x) (pValue y) \<or> (pValue x = pValue y \<and> overlap y \<le> overlap x))
           (fst (computeEnrichment cache tfTargetMap pathwayGeneSet universe))"
    unfolding res using fin by (rule ranking_sorted)
  show "\<forall>r\<in>set (fst (computeEnrichment cache tfTargetMap pathwayGeneSet universe)).
           \<exists>v. pValue r = Fin v \<and> 0 \<le> v \<and> v \<le> 1"
    unfolding res set_array_sort using pv' .
qed

lemma computeEnrichment_cache_ok:
  assumes "cache_ok cache"
  shows "cache_ok (snd (computeEnrichment cache tfTargetMap pathwayGeneSet universe))"
proof -
  let ?st = "foldl (enrich_tf universe (int (set_size universe))
               (restrict_to_universe universe pathwayGeneSet)) ([], cache) tfTargetMap"
  obtain results cache' where st: "?st = (results, cache')" by (cases ?st)
  from foldl_enrich_tf_pValues[OF refl refl assms, of "[]" universe pathwayGeneSet tfTargetMap]
  have "cache_ok cache'" by (simp add: st)
  then show ?thesis by (simp add: computeEnrichment_def Let_def st)
qed

section \<open>Claim about skipped TFs\<close>

text \<open>
  C5. \<^verbatim>\<open>computeEnrichment\<close> produces exactly one row for every TF whose
  universe-restricted target set is not empty, provided the
  universe-restricted term gene set is not empty, and no other row. So there
  is no row at all when the restricted term gene set is empty, and no row for
  a TF whose restricted target set is empty. For
  \<^verbatim>\<open>tfTargets = {"TF1": {}, "TF2": {"G1"}}\<close>, \<^verbatim>\<open>termGenes = {"G1"}\<close>,
  \<^verbatim>\<open>universe = {"G1", "G2"}\<close> the result has exactly one entry, for \<^verbatim>\<open>TF2\<close>.
\<close>

theorem C5_degenerate_skip:
  "mset (map tf (fst (computeEnrichment cache tfTargetMap pathwayGeneSet universe))) =
     mset (map fst (filter (\<lambda>(name, targets).
          restrict_to_universe universe targets \<noteq> [] \<and>
          restrict_to_universe universe pathwayGeneSet \<noteq> []) tfTargetMap))
   \<and> (restrict_to_universe universe pathwayGeneSet = [] \<longrightarrow>
        fst (computeEnrichment cache tfTargetMap pathwayGeneSet universe) = [])
   \<and> (distinct (map fst tfTargetMap) \<longrightarrow>
        (\<forall>(name, targets)\<in>set tfTargetMap. restrict_to_universe universe targets = [] \<longrightarrow>
           name \<notin> tf ` set (fst (computeEnrichment cache tfTargetMap pathwayGeneSet universe))))
   \<and> map tf (fst (computeEnrichment cache [(''TF1'', []), (''TF2'', [''G1''])] [''G1'']
                    [''G1'', ''G2''])) = [''TF2'']"
proof -
  let ?res = "fst (computeEnrichment cache tfTargetMap pathwayGeneSet universe)"
  let ?keep = "\<lambda>(name, targets). restrict_to_universe universe targets \<noteq> [] \<and>
          restrict_to_universe universe pathwayGeneSet \<noteq> []"
  have names: "mset (map tf ?res) = mset (map fst (filter ?keep tfTargetMap))"
    by (rule computeEnrichment_names)
  have none: "restrict_to_universe universe pathwayGeneSet = [] \<longrightarrow> ?res = []"
  proof
    assume "restrict_to_universe universe pathwayGeneSet = []"
    with names have "mset (map tf ?res) = {#}" by simp
    then show "?res = []" by simp
  qed
  have skipped: "name \<notin> tf ` set ?res"
    if d: "distinct (map fst tfTargetMap)" and e: "(name, targets) \<in> set tfTargetMap"
      and empty: "restrict_to_universe universe targets = []" for name targets
  proof
    assume "name \<in> tf ` set ?res"
    then have "name \<in> set (map tf ?res)" by simp
    also have "set (map tf ?res) = set (map fst (filter ?keep tfTargetMap))"
      using names by (metis set_mset_mset)
    finally obtain targets' where t': "(name, targets') \<in> set tfTargetMap"
      "restrict_to_universe universe targets' \<noteq> []" by auto
    from d t'(1) e have "targets' = targets" by (rule eq_key_imp_eq_value)
    with t'(2) empty show False by simp
  qed
  have r1: "restrict_to_universe [''G1'', ''G2''] [] = []"
    by (simp add: restrict_to_universe_def)
  have r2: "restrict_to_universe [''G1'', ''G2''] [''G1''] = [''G1'']"
    by code_simp
  have "mset (map tf (fst (computeEnrichment cache [(''TF1'', []), (''TF2'', [''G1''])] [''G1'']
                    [''G1'', ''G2'']))) = {#''TF2''#}"
    unfolding computeEnrichment_names by (simp add: r1 r2)
  then have ex: "map tf (fst (computeEnrichment cache [(''TF1'', []), (''TF2'', [''G1''])] [''G1'']
                    [''G1'', ''G2''])) = [''TF2'']"
    by (simp only: mset_single_iff)
  from names none skipped ex show ?thesis by blast
qed

theorem C5_degenerate_skip_witness:
  "restrict_to_universe [''G1''] [''G9''] = [] \<and>
   fst (computeEnrichment logFactorialCache_init [(''TF1'', [''G1''])] [''G9''] [''G1'']) = [] \<and>
   distinct (map fst [(''TF1'', []), (''TF2'', [''G1''])]) \<and>
   (''TF1'', []) \<in> set [(''TF1'', []), (''TF2'', [''G1''])] \<and>
   restrict_to_universe [''G1'', ''G2''] [] = [] \<and>
   ''TF1'' \<notin> tf ` set (fst (computeEnrichment logFactorialCache_init
                [(''TF1'', []), (''TF2'', [''G1''])] [''G1''] [''G1'', ''G2'']))"
proof -
  have r0: "restrict_to_universe [''G1''] [''G9''] = []" by code_simp
  have r1: "restrict_to_universe [''G1'', ''G2''] [] = []"
    by (simp add: restrict_to_universe_def)
  have d: "distinct (map fst [(''TF1'', []), (''TF2'', [''G1''])])" by simp
  note a = C5_degenerate_skip[of logFactorialCache_init "[(''TF1'', [''G1''])]" "[''G9'']" "[''G1'']"]
  note b = C5_degenerate_skip[of logFactorialCache_init "[(''TF1'', []), (''TF2'', [''G1''])]"
             "[''G1'']" "[''G1'', ''G2'']"]
  from a r0 have 1: "fst (computeEnrichment logFactorialCache_init [(''TF1'', [''G1''])] [''G9''] [''G1'']) = []"
    by blast
  from b d have "\<forall>(name, targets)\<in>set [(''TF1'', []), (''TF2'', [''G1''])].
      restrict_to_universe [''G1'', ''G2''] targets = [] \<longrightarrow>
      name \<notin> tf ` set (fst (computeEnrichment logFactorialCache_init
                [(''TF1'', []), (''TF2'', [''G1''])] [''G1''] [''G1'', ''G2'']))"
    by blast
  with r1 have 2: "''TF1'' \<notin> tf ` set (fst (computeEnrichment logFactorialCache_init
                [(''TF1'', []), (''TF2'', [''G1''])] [''G1''] [''G1'', ''G2'']))"
    by simp
  from r0 1 d r1 2 show ?thesis by simp
qed

section \<open>Exact values of the Fisher test\<close>

lemma cache_exact_init: "cache_exact logFactorialCache_init"
  by (simp add: cache_exact_def logFactorialCache_init_def)

lemma cache_exact_ok: "cache_exact cache \<Longrightarrow> cache_ok cache"
  by (auto simp: cache_exact_def cache_ok_def list_all_length)

lemma ln_fact_Suc: "ln (fact (Suc n) :: real) = ln (fact n) + ln (real (Suc n))"
proof -
  have "ln (fact (Suc n) :: real) = ln (real (Suc n) * fact n)" by simp
  also have "\<dots> = ln (real (Suc n)) + ln (fact n)"
    by (rule ln_mult_pos) simp_all
  finally show ?thesis by simp
qed

lemma logFactorial_fill_exact:
  "cache_exact cache \<Longrightarrow> i = int (length cache) \<Longrightarrow>
   cache_exact (logFactorial_fill cache i n) \<and>
   length (logFactorial_fill cache i n) = max (length cache) (nat (n + 1))"
proof (induction cache i n rule: logFactorial_fill.induct)
  case (1 cache i n)
  show ?case
  proof (cases "i \<le> n")
    case False
    then have "logFactorial_fill cache i n = cache"
      by (subst logFactorial_fill.simps) simp
    with False "1.prems" show ?thesis by (auto simp: max_def)
  next
    case True
    let ?v = "js_add (array_get cache (i - 1)) (js_log (num i))"
    from "1.prems" obtain m where m: "length cache = Suc m"
      by (cases cache) (auto simp: cache_exact_def)
    with "1.prems" have i: "i = int (Suc m)" by simp
    from "1.prems"(1) m have "cache ! m = Fin (ln (fact m))"
      by (simp add: cache_exact_def)
    then have get: "array_get cache (i - 1) = Fin (ln (fact m))"
      using m i by (simp add: array_get_def)
    have lg: "js_log (num i) = Fin (ln (real (Suc m)))"
      unfolding i num_def by simp
    have v: "?v = Fin (ln (fact (Suc m)))"
      unfolding get lg ln_fact_Suc by simp
    from "1.prems" have app: "array_set cache i ?v = cache @ [?v]"
      by (simp add: array_set_def)
    have "cache_exact (cache @ [Fin (ln (fact (Suc m)))])"
      using "1.prems"(1) m by (auto simp: cache_exact_def nth_append less_Suc_eq)
    then have ok': "cache_exact (array_set cache i ?v)"
      unfolding app by (simp only: v)
    have len': "i + 1 = int (length (array_set cache i ?v))"
      unfolding app using "1.prems"(2) by simp
    have unf: "logFactorial_fill cache i n = logFactorial_fill (array_set cache i ?v) (i + 1) n"
      using True by (subst logFactorial_fill.simps) simp
    have "length (array_set cache i ?v) = Suc (length cache)"
      unfolding app by simp
    with "1.IH"[OF True ok' len'] True "1.prems"(2) show ?thesis
      unfolding unf by (auto simp: max_def)
  qed
qed

lemma logFactorial_exact:
  assumes "cache_exact cache"
  shows "cache_exact (snd (logFactorial cache n))"
    and "0 \<le> n \<Longrightarrow> fst (logFactorial cache n) = Fin (ln (fact (nat n)))"
proof -
  let ?c = "logFactorial_fill cache (int (length cache)) n"
  from logFactorial_fill_exact[OF assms refl, of n]
  have ok: "cache_exact ?c" and len: "length ?c = max (length cache) (nat (n + 1))" by auto
  show "cache_exact (snd (logFactorial cache n))"
    using assms ok by (simp add: logFactorial_def Let_def)
  assume n: "0 \<le> n"
  with len have "nat n < length ?c" by simp
  with ok n show "fst (logFactorial cache n) = Fin (ln (fact (nat n)))"
    by (simp add: logFactorial_def Let_def array_get_def cache_exact_def)
qed

lemma ln_binomial:
  assumes "k \<le> n"
  shows "ln (fact n) - ln (fact k) - ln (fact (n - k)) = ln (real (n choose k))"
proof -
  have "real (n choose k) = fact n / (fact k * fact (n - k))"
    using assms by (rule binomial_fact)
  then have "ln (real (n choose k)) = ln (fact n / (fact k * fact (n - k)))" by simp
  also have "\<dots> = ln (fact n) - ln (fact k * fact (n - k) :: real)"
    by (rule ln_divide_pos) simp_all
  also have "ln (fact k * fact (n - k) :: real) = ln (fact k) + ln (fact (n - k))"
    by (rule ln_mult_pos) simp_all
  finally show ?thesis by simp
qed

lemma logChoose_exact:
  assumes "cache_exact cache"
  shows "cache_exact (snd (logChoose cache n k))"
    and "0 \<le> k \<Longrightarrow> k \<le> n \<Longrightarrow> fst (logChoose cache n k) = Fin (ln (real (nat n choose nat k)))"
proof -
  obtain fn c1 where e1: "logFactorial cache n = (fn, c1)" by (cases "logFactorial cache n")
  obtain fk c2 where e2: "logFactorial c1 k = (fk, c2)" by (cases "logFactorial c1 k")
  obtain fnk c3 where e3: "logFactorial c2 (n - k) = (fnk, c3)" by (cases "logFactorial c2 (n - k)")
  from logFactorial_exact(1)[OF assms, of n] e1 have ok1: "cache_exact c1" by simp
  from logFactorial_exact(1)[OF ok1, of k] e2 have ok2: "cache_exact c2" by simp
  from logFactorial_exact(1)[OF ok2, of "n - k"] e3 have ok3: "cache_exact c3" by simp
  show "cache_exact (snd (logChoose cache n k))"
    using assms ok3 by (simp add: logChoose_def e1 e2 e3)
  assume k: "0 \<le> k" "k \<le> n"
  from logFactorial_exact(2)[OF assms, of n] e1 k have f1: "fn = Fin (ln (fact (nat n)))" by simp
  from logFactorial_exact(2)[OF ok1, of k] e2 k have f2: "fk = Fin (ln (fact (nat k)))" by simp
  from logFactorial_exact(2)[OF ok2, of "n - k"] e3 k
  have f3: "fnk = Fin (ln (fact (nat n - nat k)))" by (simp add: nat_diff_distrib)
  from k have "nat k \<le> nat n" by simp
  from ln_binomial[OF this] k show "fst (logChoose cache n k) = Fin (ln (real (nat n choose nat k)))"
    by (simp add: logChoose_def e1 e2 e3 f1 f2 f3 js_sub_def)
qed

lemma hypergeomPmf_exact:
  assumes "cache_exact cache"
    and "0 \<le> k" and "k \<le> K" and "k \<le> n" and "n - k \<le> N - K" and "n \<le> N"
  shows "cache_exact (snd (hypergeomPmf cache k N K n))"
    and "fst (hypergeomPmf cache k N K n) = Fin (hypergeom N K n k)"
proof -
  obtain x c1 where e1: "logChoose cache K k = (x, c1)" by (cases "logChoose cache K k")
  obtain y c2 where e2: "logChoose c1 (N - K) (n - k) = (y, c2)"
    by (cases "logChoose c1 (N - K) (n - k)")
  obtain z c3 where e3: "logChoose c2 N n = (z, c3)" by (cases "logChoose c2 N n")
  from logChoose_exact(1)[OF assms(1), of K k] e1 have ok1: "cache_exact c1" by simp
  from logChoose_exact(1)[OF ok1, of "N - K" "n - k"] e2 have ok2: "cache_exact c2" by simp
  from logChoose_exact(1)[OF ok2, of N n] e3 have ok3: "cache_exact c3" by simp
  show "cache_exact (snd (hypergeomPmf cache k N K n))"
    using ok3 by (simp add: hypergeomPmf_def e1 e2 e3)
  let ?A = "real (nat K choose nat k)" and ?B = "real (nat (N - K) choose nat (n - k))"
    and ?C = "real (nat N choose nat n)"
  from assms have A: "0 < ?A" and B: "0 < ?B" and C: "0 < ?C" by simp_all
  from logChoose_exact(2)[OF assms(1), of k K] e1 assms have x: "x = Fin (ln ?A)" by simp
  from logChoose_exact(2)[OF ok1, of "n - k" "N - K"] e2 assms have y: "y = Fin (ln ?B)" by simp
  from logChoose_exact(2)[OF ok2, of n N] e3 assms have z: "z = Fin (ln ?C)" by simp
  have "exp (ln ?A + ln ?B - ln ?C) = ?A * ?B / ?C"
    using A B C by (simp add: exp_diff exp_add)
  then show "fst (hypergeomPmf cache k N K n) = Fin (hypergeom N K n k)"
    by (simp add: hypergeomPmf_def e1 e2 e3 x y z js_sub_def hypergeom_def)
qed

lemma fisher_sum_exact:
  "cache_exact cache \<Longrightarrow> 0 \<le> k \<Longrightarrow> n - k \<le> N - K \<Longrightarrow> maxK \<le> K \<Longrightarrow> maxK \<le> n \<Longrightarrow> n \<le> N \<Longrightarrow>
   cache_exact (snd (fisher_sum cache k maxK N K n (Fin p))) \<and>
   fst (fisher_sum cache k maxK N K n (Fin p)) = Fin (p + (\<Sum>j\<in>{k..maxK}. hypergeom N K n j))"
proof (induction cache k maxK N K n "Fin p" arbitrary: p rule: fisher_sum.induct)
  case (1 cache k maxK N K n)
  show ?case
  proof (cases "k \<le> maxK")
    case False
    then have "fisher_sum cache k maxK N K n (Fin p) = (Fin p, cache)"
      by (subst fisher_sum.simps) simp
    with False "1.prems" show ?thesis by simp
  next
    case True
    obtain pmf c1 where e: "hypergeomPmf cache k N K n = (pmf, c1)"
      by (cases "hypergeomPmf cache k N K n")
    from True "1.prems" have rng: "k \<le> K" "k \<le> n" by simp_all
    from hypergeomPmf_exact[OF "1.prems"(1,2) rng "1.prems"(3,6)] e
    have ok1: "cache_exact c1" and pm: "pmf = Fin (hypergeom N K n k)" by simp_all
    have acc: "js_add (Fin p) pmf = Fin (p + hypergeom N K n k)" by (simp add: pm)
    have unf: "fisher_sum cache k maxK N K n (Fin p)
               = fisher_sum c1 (k + 1) maxK N K n (Fin (p + hypergeom N K n k))"
      using True by (subst fisher_sum.simps) (simp add: e acc)
    from "1.prems" have k1: "0 \<le> k + 1" "n - (k + 1) \<le> N - K" by simp_all
    have split: "{k..maxK} = insert k {k + 1..maxK}" using True by auto
    have "(\<Sum>j\<in>{k..maxK}. hypergeom N K n j)
          = hypergeom N K n k + (\<Sum>j\<in>{k + 1..maxK}. hypergeom N K n j)"
      unfolding split by (rule sum.insert) simp_all
    with "1.hyps"[OF True e[symmetric] acc ok1 k1 "1.prems"(4,5,6)]
    show ?thesis unfolding unf by (simp add: add.assoc)
  qed
qed

text \<open>
  The p-value is the right tail of the hypergeometric distribution, capped at
  \<open>1\<close>.
\<close>

lemma fisherRightTail_exact:
  assumes "cache_exact cache" and "0 \<le> a" and "0 \<le> b" and "0 \<le> c" and "0 \<le> d"
  shows "cache_exact (snd (fisherRightTail cache a b c d))"
    and "pValue (fst (fisherRightTail cache a b c d)) =
           Fin (min 1 (\<Sum>j\<in>{a..min (a + c) (a + b)}.
                  hypergeom (a + b + c + d) (a + c) (a + b) j))"
proof -
  let ?N = "a + b + c + d" and ?K = "a + c" and ?n = "a + b"
  obtain p c1 where e: "fisher_sum cache a (min ?K ?n) ?N ?K ?n (Fin 0) = (p, c1)"
    by (cases "fisher_sum cache a (min ?K ?n) ?N ?K ?n (Fin 0)")
  from assms have "?n - a \<le> ?N - ?K" "min ?K ?n \<le> ?K" "min ?K ?n \<le> ?n" "?n \<le> ?N" by simp_all
  from fisher_sum_exact[OF assms(1,2) this, of 0] e
  have ok: "cache_exact c1" and p: "p = Fin (\<Sum>j\<in>{a..min ?K ?n}. hypergeom ?N ?K ?n j)"
    by simp_all
  show "cache_exact (snd (fisherRightTail cache a b c d))"
    unfolding fisherRightTail_def Let_def e using ok by simp
  show "pValue (fst (fisherRightTail cache a b c d)) =
           Fin (min 1 (\<Sum>j\<in>{a..min ?K ?n}. hypergeom ?N ?K ?n j))"
    unfolding fisherRightTail_def Let_def e p by simp
qed

section \<open>A tie in the ranking\<close>

text \<open>
  Universe of ten genes, term of five genes; \<^verbatim>\<open>TFA\<close> has three targets, all in
  the term, \<^verbatim>\<open>TFB\<close> has seven targets, the whole term among them. Both
  p-values are \<open>1/12\<close>, the overlaps are 3 and 5.
\<close>

lemma fisher_tie_3:
  assumes "cache_exact cache"
  shows "pValue (fst (fisherRightTail cache 3 0 2 5)) = Fin (1 / 12)"
proof -
  have b: "(5::nat) choose 3 = 10" "(5::nat) choose 0 = 1" "(10::nat) choose 3 = 120"
    by code_simp+
  have "{3..min (3 + 2) (3 + 0)} = {3::int}" by simp
  with fisherRightTail_exact(2)[OF assms, of 3 0 2 5] show ?thesis
    by (simp add: hypergeom_def b)
qed

lemma fisher_tie_5:
  assumes "cache_exact cache"
  shows "pValue (fst (fisherRightTail cache 5 2 0 3)) = Fin (1 / 12)"
proof -
  have b: "(5::nat) choose 5 = 1" "(5::nat) choose 2 = 10" "(10::nat) choose 7 = 120"
    by code_simp+
  have "{5..min (5 + 0) (5 + 2)} = {5::int}" by simp
  with fisherRightTail_exact(2)[OF assms, of 5 2 0 3] show ?thesis
    by (simp add: hypergeom_def b)
qed

lemma tie_example:
  defines "U \<equiv> [''G0'', ''G1'', ''G2'', ''G3'', ''G4'', ''G5'', ''G6'', ''G7'', ''G8'', ''G9'']"
    and "pg \<equiv> [''G0'', ''G1'', ''G2'', ''G3'', ''G4'']"
    and "tA \<equiv> [''G0'', ''G1'', ''G2'']"
    and "tB \<equiv> [''G0'', ''G1'', ''G2'', ''G3'', ''G4'', ''G5'', ''G6'']"
  defines "res \<equiv> fst (computeEnrichment logFactorialCache_init [(''TFA'', tA), (''TFB'', tB)] pg U)"
  shows "map tf res = [''TFB'', ''TFA'']"
    and "map overlap res = [5, 3]"
    and "map pValue res = [Fin (1 / 12), Fin (1 / 12)]"
proof -
  have rP: "restrict_to_universe U pg = pg" unfolding U_def pg_def by code_simp
  have rA: "restrict_to_universe U tA = tA" unfolding U_def tA_def by code_simp
  have rB: "restrict_to_universe U tB = tB" unfolding U_def tB_def by code_simp
  have n: "int (set_size U) = 10" by (simp add: U_def set_size_def)
  have cA: "contingency tA pg 10 = (3, 0, 2, 5)" unfolding tA_def pg_def by code_simp
  have cB: "contingency tB pg 10 = (5, 2, 0, 3)" unfolding tB_def pg_def by code_simp
  have cA': "contingency (restrict_to_universe U tA) pg 10 = (3, 0, 2, 5)"
    unfolding rA by (rule cA)
  have cB': "contingency (restrict_to_universe U tB) pg 10 = (5, 2, 0, 3)"
    unfolding rB by (rule cB)
  have neA: "restrict_to_universe U tA \<noteq> []" and neB: "restrict_to_universe U tB \<noteq> []"
    and neP: "pg \<noteq> []"
    unfolding rA rB by (simp_all add: tA_def tB_def pg_def)
  let ?c0 = logFactorialCache_init
  let ?c1 = "snd (fisherRightTail ?c0 3 0 2 5)"
  have ex0: "cache_exact ?c0" by (rule cache_exact_init)
  have ex1: "cache_exact ?c1" using ex0 by (intro fisherRightTail_exact(1)) simp_all
  note pA = fisher_tie_3[OF ex0] and pB = fisher_tie_5[OF ex1]
  have st: "foldl (enrich_tf U 10 pg) ([], ?c0) [(''TFA'', tA), (''TFB'', tB)] =
     ([\<lparr>pValue = Fin (1 / 12), oddsRatio = oddsRatio (fst (fisherRightTail ?c0 3 0 2 5)),
        tf = ''TFA'', overlap = 3, tfTargets = int (set_size tA),
        pathwayGenes = int (set_size pg), fdr = Fin 1\<rparr>,
       \<lparr>pValue = Fin (1 / 12), oddsRatio = oddsRatio (fst (fisherRightTail ?c1 5 2 0 3)),
        tf = ''TFB'', overlap = 5, tfTargets = int (set_size tB),
        pathwayGenes = int (set_size pg), fdr = Fin 1\<rparr>],
      snd (fisherRightTail ?c1 5 2 0 3))"
    unfolding foldl_Cons foldl_Nil
      enrich_tf_row[OF neA neP cA'] enrich_tf_row[OF neB neP cB']
    by (simp add: pA pB rA rB)
  have res: "res = array_sort compare_results
       [\<lparr>pValue = Fin (1 / 12), oddsRatio = oddsRatio (fst (fisherRightTail ?c0 3 0 2 5)),
        tf = ''TFA'', overlap = 3, tfTargets = int (set_size tA),
        pathwayGenes = int (set_size pg),
        fdr = array_get (bhFdr [Fin (1 / 12), Fin (1 / 12)]) 0\<rparr>,
       \<lparr>pValue = Fin (1 / 12), oddsRatio = oddsRatio (fst (fisherRightTail ?c1 5 2 0 3)),
        tf = ''TFB'', overlap = 5, tfTargets = int (set_size tB),
        pathwayGenes = int (set_size pg),
        fdr = array_get (bhFdr [Fin (1 / 12), Fin (1 / 12)]) 1\<rparr>]"
    unfolding res_def computeEnrichment_def Let_def n rP st by (simp add: upt_conv_Cons)
  show "map tf res = [''TFB'', ''TFA'']"
    unfolding res
    by (simp add: array_sort_def compare_results_def js_or_def js_sub_def num_def upt_conv_Cons)
  show "map overlap res = [5, 3]"
    unfolding res
    by (simp add: array_sort_def compare_results_def js_or_def js_sub_def num_def upt_conv_Cons)
  show "map pValue res = [Fin (1 / 12), Fin (1 / 12)]"
    unfolding res
    by (simp add: array_sort_def compare_results_def js_or_def js_sub_def num_def upt_conv_Cons)
qed

section \<open>Claim about the ranking\<close>

text \<open>
  C8. The list that \<^verbatim>\<open>computeEnrichment\<close> returns is sorted by ascending
  \<^verbatim>\<open>pValue\<close>, and entries with equal \<^verbatim>\<open>pValue\<close> appear in the order of
  descending overlap count: of two entries, the earlier one has the strictly
  smaller p-value, or the same p-value and an overlap that is not smaller.
  In particular, of two entries with identical p-values and different
  overlaps (5 and 3, say), the one with the larger overlap comes first.
\<close>

theorem C8_ranking:
  assumes "cache_ok cache"
  shows "sorted_wrt (\<lambda>x y. js_lt (pValue x) (pValue y) \<or>
                        (pValue x = pValue y \<and> overlap y \<le> overlap x))
           (fst (computeEnrichment cache tfTargetMap pathwayGeneSet universe))
    \<and> (\<forall>i j. i < j \<and> j < length (fst (computeEnrichment cache tfTargetMap pathwayGeneSet universe)) \<and>
          pValue (fst (computeEnrichment cache tfTargetMap pathwayGeneSet universe) ! i) =
          pValue (fst (computeEnrichment cache tfTargetMap pathwayGeneSet universe) ! j) \<longrightarrow>
          overlap (fst (computeEnrichment cache tfTargetMap pathwayGeneSet universe) ! j) \<le>
          overlap (fst (computeEnrichment cache tfTargetMap pathwayGeneSet universe) ! i))
    \<and> (\<forall>i j. i < length (fst (computeEnrichment cache tfTargetMap pathwayGeneSet universe)) \<and>
          j < length (fst (computeEnrichment cache tfTargetMap pathwayGeneSet universe)) \<and>
          pValue (fst (computeEnrichment cache tfTargetMap pathwayGeneSet universe) ! i) =
          pValue (fst (computeEnrichment cache tfTargetMap pathwayGeneSet universe) ! j) \<and>
          overlap (fst (computeEnrichment cache tfTargetMap pathwayGeneSet universe) ! j) <
          overlap (fst (computeEnrichment cache tfTargetMap pathwayGeneSet universe) ! i) \<longrightarrow>
          i < j)"
proof -
  define res where "res = fst (computeEnrichment cache tfTargetMap pathwayGeneSet universe)"
  let ?R = "\<lambda>x y. js_lt (pValue x) (pValue y) \<or> (pValue x = pValue y \<and> overlap y \<le> overlap x)"
  have srt: "sorted_wrt ?R res"
    unfolding res_def using assms by (rule computeEnrichment_sorted(1))
  have fin: "\<forall>r\<in>set res. \<exists>v. pValue r = Fin v \<and> 0 \<le> v \<and> v \<le> 1"
    unfolding res_def using assms by (rule computeEnrichment_sorted(2))
  have step: "overlap (res ! j) \<le> overlap (res ! i)"
    if "i < j" "j < length res" "pValue (res ! i) = pValue (res ! j)" for i j
  proof -
    from srt that(1,2) have R: "?R (res ! i) (res ! j)"
      by (rule sorted_wrt_nth_less)
    from that(2) have "res ! j \<in> set res" by simp
    with fin obtain v where v: "pValue (res ! j) = Fin v" by blast
    with that(3) have "\<not> js_lt (pValue (res ! i)) (pValue (res ! j))" by simp
    with R show ?thesis by blast
  qed
  have first: "i < j"
    if "i < length res" "j < length res" "pValue (res ! i) = pValue (res ! j)"
      "overlap (res ! j) < overlap (res ! i)" for i j
  proof (rule ccontr)
    assume "\<not> i < j"
    moreover from that(4) have "i \<noteq> j" by auto
    ultimately have "j < i" by simp
    from step[OF this that(1) that(3)[symmetric]] that(4) show False by simp
  qed
  have "sorted_wrt ?R res
    \<and> (\<forall>i j. i < j \<and> j < length res \<and> pValue (res ! i) = pValue (res ! j) \<longrightarrow>
          overlap (res ! j) \<le> overlap (res ! i))
    \<and> (\<forall>i j. i < length res \<and> j < length res \<and> pValue (res ! i) = pValue (res ! j) \<and>
          overlap (res ! j) < overlap (res ! i) \<longrightarrow> i < j)"
    using srt step first by blast
  then show ?thesis unfolding res_def .
qed

theorem C8_ranking_witness:
  "cache_ok logFactorialCache_init \<and>
   map tf (fst (computeEnrichment logFactorialCache_init
     [(''TFA'', [''G0'', ''G1'', ''G2'']),
      (''TFB'', [''G0'', ''G1'', ''G2'', ''G3'', ''G4'', ''G5'', ''G6''])]
     [''G0'', ''G1'', ''G2'', ''G3'', ''G4'']
     [''G0'', ''G1'', ''G2'', ''G3'', ''G4'', ''G5'', ''G6'', ''G7'', ''G8'', ''G9''])) = [''TFB'', ''TFA''] \<and>
   pValue (fst (computeEnrichment logFactorialCache_init
     [(''TFA'', [''G0'', ''G1'', ''G2'']),
      (''TFB'', [''G0'', ''G1'', ''G2'', ''G3'', ''G4'', ''G5'', ''G6''])]
     [''G0'', ''G1'', ''G2'', ''G3'', ''G4'']
     [''G0'', ''G1'', ''G2'', ''G3'', ''G4'', ''G5'', ''G6'', ''G7'', ''G8'', ''G9'']) ! 0) =
   pValue (fst (computeEnrichment logFactorialCache_init
     [(''TFA'', [''G0'', ''G1'', ''G2'']),
      (''TFB'', [''G0'', ''G1'', ''G2'', ''G3'', ''G4'', ''G5'', ''G6''])]
     [''G0'', ''G1'', ''G2'', ''G3'', ''G4'']
     [''G0'', ''G1'', ''G2'', ''G3'', ''G4'', ''G5'', ''G6'', ''G7'', ''G8'', ''G9'']) ! 1) \<and>
   overlap (fst (computeEnrichment logFactorialCache_init
     [(''TFA'', [''G0'', ''G1'', ''G2'']),
      (''TFB'', [''G0'', ''G1'', ''G2'', ''G3'', ''G4'', ''G5'', ''G6''])]
     [''G0'', ''G1'', ''G2'', ''G3'', ''G4'']
     [''G0'', ''G1'', ''G2'', ''G3'', ''G4'', ''G5'', ''G6'', ''G7'', ''G8'', ''G9'']) ! 1) \<le>
   overlap (fst (computeEnrichment logFactorialCache_init
     [(''TFA'', [''G0'', ''G1'', ''G2'']),
      (''TFB'', [''G0'', ''G1'', ''G2'', ''G3'', ''G4'', ''G5'', ''G6''])]
     [''G0'', ''G1'', ''G2'', ''G3'', ''G4'']
     [''G0'', ''G1'', ''G2'', ''G3'', ''G4'', ''G5'', ''G6'', ''G7'', ''G8'', ''G9'']) ! 0)"
proof -
  define res where "res = fst (computeEnrichment logFactorialCache_init
     [(''TFA'', [''G0'', ''G1'', ''G2'']),
      (''TFB'', [''G0'', ''G1'', ''G2'', ''G3'', ''G4'', ''G5'', ''G6''])]
     [''G0'', ''G1'', ''G2'', ''G3'', ''G4'']
     [''G0'', ''G1'', ''G2'', ''G3'', ''G4'', ''G5'', ''G6'', ''G7'', ''G8'', ''G9''])"
  have ok: "cache_ok logFactorialCache_init" by (rule cache_ok_init)
  have names: "map tf res = [''TFB'', ''TFA'']" unfolding res_def by (rule tie_example(1))
  have pvs: "map pValue res = [Fin (1 / 12), Fin (1 / 12)]"
    unfolding res_def by (rule tie_example(3))
  from names have "length (map tf res) = 2" by simp
  then have len: "length res = 2" by simp
  have "map pValue res ! 0 = map pValue res ! 1" unfolding pvs by simp
  then have pv: "pValue (res ! 0) = pValue (res ! 1)" using len by simp
  have "\<forall>i j. i < j \<and> j < length res \<and> pValue (res ! i) = pValue (res ! j) \<longrightarrow>
          overlap (res ! j) \<le> overlap (res ! i)"
    unfolding res_def using C8_ranking[OF ok] by (rule conjunct1[OF conjunct2])
  then have "(0::nat) < 1 \<and> 1 < length res \<and> pValue (res ! 0) = pValue (res ! 1) \<longrightarrow>
          overlap (res ! 1) \<le> overlap (res ! 0)" by blast
  with len pv have "overlap (res ! 1) \<le> overlap (res ! 0)" by simp
  with ok names pv have "cache_ok logFactorialCache_init \<and> map tf res = [''TFB'', ''TFA''] \<and>
    pValue (res ! 0) = pValue (res ! 1) \<and> overlap (res ! 1) \<le> overlap (res ! 0)" by blast
  then show ?thesis unfolding res_def .
qed

section \<open>Facts about the capacity of the cache array\<close>
















section \<open>Claim about the odds ratio and exceptions\<close>




end
